theory Spec2Isabelle
  imports Complex_Main "HOL-Library.Multiset" "HOL-Library.Code_Target_Nat"
begin

section \<open>Python values, exceptions and string methods\<close>

text \<open>
  The program is \<^verbatim>\<open>final.py\<close>: three normalizers that turn a parsed input table into
  rows \<^verbatim>\<open>{id, text, sentiment}\<close>, and \<^verbatim>\<open>inject_spelling_errors\<close>, which perturbs the
  text of every row with draws from Python's global random generator.

  A Python \<^verbatim>\<open>str\<close> is modelled as a \<^typ>\<open>string\<close>, one \<^typ>\<open>char\<close> per code point
  (code points below 256). An exception is a value of type \<open>error\<close>; a function that can
  raise returns \<open>error + 'a\<close>, \<open>Inl\<close> being the raise.
\<close>

datatype error =
    AttributeError
  | IndexError
  | ValueError
  | UnboundLocalError
  | JSONDecodeError
  | OutOfDraws

text \<open>
  \<open>OutOfDraws\<close> is not a Python exception: the random generator is modelled as a finite
  tape of draws (below), and \<open>OutOfDraws\<close> says that the tape handed to the model was used
  up before the run ended.
\<close>

text \<open>Whitespace as \<^verbatim>\<open>str.split()\<close> and \<^verbatim>\<open>str.strip()\<close> see it, for code points below 256.\<close>

definition isspace :: "char \<Rightarrow> bool" where
  "isspace c =
     (let n = (of_char c :: nat)
      in (9 \<le> n \<and> n \<le> 13) \<or> (28 \<le> n \<and> n \<le> 32) \<or> n = 133 \<or> n = 160)"

definition str_strip :: "string \<Rightarrow> string" where
  "str_strip s = rev (dropWhile isspace (rev (dropWhile isspace s)))"

text \<open>\<^verbatim>\<open>s.replace(old, new)\<close> for a non-empty \<open>old\<close>: leftmost occurrences, not overlapping.\<close>

function str_replace :: "string \<Rightarrow> string \<Rightarrow> string \<Rightarrow> string" where
  "str_replace old new [] = []"
| "str_replace old new (c # cs) =
     (if old \<noteq> [] \<and> take (length old) (c # cs) = old
      then new @ str_replace old new (drop (length old) (c # cs))
      else c # str_replace old new cs)"
  by pat_completeness auto
termination
  by (relation "measure (\<lambda>(old, new, s). length s)") (auto simp: neq_Nil_conv)

text \<open>\<^verbatim>\<open>str.lower()\<close> on code points below 256 (the financial file is read as latin-1).\<close>

definition char_lower :: "char \<Rightarrow> char" where
  "char_lower c =
     (let n = (of_char c :: nat)
      in if (65 \<le> n \<and> n \<le> 90) \<or> (192 \<le> n \<and> n \<le> 222 \<and> n \<noteq> 215)
         then char_of (n + 32) else c)"

definition str_lower :: "string \<Rightarrow> string" where
  "str_lower s = map char_lower s"

text \<open>\<^verbatim>\<open>text.split()\<close>: the maximal runs of non-whitespace characters.\<close>

function str_split :: "string \<Rightarrow> string list" where
  "str_split s =
     (case dropWhile isspace s of
        [] \<Rightarrow> []
      | c # cs \<Rightarrow>
          takeWhile (\<lambda>x. \<not> isspace x) (c # cs)
            # str_split (dropWhile (\<lambda>x. \<not> isspace x) cs))"
  by pat_completeness auto
termination
proof (relation "measure length")
  show "wf (measure length)" by simp
next
  fix s :: string and c cs
  assume d: "dropWhile isspace s = c # cs"
  have "length (dropWhile (\<lambda>x. \<not> isspace x) cs) \<le> length cs"
    by (rule length_dropWhile_le)
  moreover have "length (c # cs) \<le> length s"
    using length_dropWhile_le [of isspace s] d by simp
  ultimately show "(dropWhile (\<lambda>x. \<not> isspace x) cs, s) \<in> measure length"
    by simp
qed

declare str_split.simps [simp del]

text \<open>\<^verbatim>\<open>sep.join(words)\<close>.\<close>

fun str_join :: "string \<Rightarrow> string list \<Rightarrow> string" where
  "str_join sep [] = []"
| "str_join sep [w] = w"
| "str_join sep (w # v # ws) = w @ sep @ str_join sep (v # ws)"

section \<open>The normalizers\<close>

text \<open>A row of the returned frame: the dict \<^verbatim>\<open>{'id': .., 'text': .., 'sentiment': ..}\<close>.\<close>

record formatted =
  id_col :: nat
  text_col :: string
  sentiment_col :: string

text \<open>
  A cell of a frame read by \<^verbatim>\<open>pd.read_csv\<close> whose string methods the code calls: a
  string, or something else (the float NaN of an empty field, a number), on which
  \<^verbatim>\<open>.replace\<close> and \<^verbatim>\<open>.strip\<close> raise AttributeError.
\<close>

datatype cell = Str string | NotStr

text \<open>
  \<^verbatim>\<open>format_movie_reviews_for_evaluate\<close>, lines 30 to 38, on the rows
  \<open>(review, sentiment)\<close> of the frame; \<open>idx\<close> is the label of the default range index.
\<close>

fun movie_rows :: "nat \<Rightarrow> (cell \<times> string) list \<Rightarrow> error + formatted list" where
  "movie_rows idx [] = Inr []"
| "movie_rows idx ((review, sentiment) # rows) =
     (case review of
        NotStr \<Rightarrow> Inl AttributeError
      | Str r \<Rightarrow>
          (case movie_rows (Suc idx) rows of
             Inl e \<Rightarrow> Inl e
           | Inr data \<Rightarrow>
               Inr (\<lparr>id_col = idx,
                     text_col = str_strip (str_replace ''<br />'' '' '' r),
                     sentiment_col = sentiment\<rparr> # data)))"

definition format_movie_reviews_for_evaluate ::
  "(cell \<times> string) list \<Rightarrow> error + formatted list" where
  "format_movie_reviews_for_evaluate df = movie_rows 0 df"

text \<open>
  The values \<^verbatim>\<open>review.get("reviewText")\<close> and \<^verbatim>\<open>review.get("overall")\<close> can hold:
  \<^verbatim>\<open>None\<close> (key absent, or JSON null), a boolean, a finite number (the rational it
  denotes), NaN or an infinity, a string, or a list or dict with so many entries.
\<close>

datatype pyval =
    PyNone
  | PyBool bool
  | PyNum rat
  | PyNonFinite
  | PyStr string
  | PyColl nat

text \<open>
  What \<^verbatim>\<open>json.loads(line.strip())\<close> gives for one line of the file: it raises, or it
  returns a value that is no dict (so \<^verbatim>\<open>.get\<close> raises), or a dict, kept as its two
  looked-up fields \<open>reviewText\<close> and \<open>overall\<close>.
\<close>

datatype json_line = Undecodable | NonObject | Object pyval pyval

fun truthy :: "pyval \<Rightarrow> bool" where
  "truthy PyNone = False"
| "truthy (PyBool b) = b"
| "truthy (PyNum q) = (q \<noteq> 0)"
| "truthy PyNonFinite = True"
| "truthy (PyStr s) = (s \<noteq> [])"
| "truthy (PyColl n) = (n \<noteq> 0)"

text \<open>Python's \<^verbatim>\<open>==\<close> between a looked-up value and a float literal.\<close>

fun py_eq :: "pyval \<Rightarrow> rat \<Rightarrow> bool" where
  "py_eq (PyBool b) q = ((if b then 1 else 0) = q)"
| "py_eq (PyNum p) q = (p = q)"
| "py_eq v q = False"

text \<open>Lines 75 to 82: the sentiment of a rating, \<open>None\<close> for the \<^verbatim>\<open>continue\<close>.\<close>

definition rating_sentiment :: "pyval \<Rightarrow> string option" where
  "rating_sentiment overall =
     (if py_eq overall 1 \<or> py_eq overall 2 then Some ''negative''
      else if py_eq overall 3 then Some ''neutral''
      else if py_eq overall 4 \<or> py_eq overall 5 then Some ''positive''
      else None)"

fun fashion_lines :: "nat \<Rightarrow> json_line list \<Rightarrow> error + formatted list" where
  "fashion_lines idx [] = Inr []"
| "fashion_lines idx (line # lines) =
     (case line of
        Undecodable \<Rightarrow> Inl JSONDecodeError
      | NonObject \<Rightarrow> Inl AttributeError
      | Object review_text overall \<Rightarrow>
          if \<not> truthy review_text then fashion_lines (Suc idx) lines
          else
            (case rating_sentiment overall of
               None \<Rightarrow> fashion_lines (Suc idx) lines
             | Some sentiment \<Rightarrow>
                 (case review_text of
                    PyStr s \<Rightarrow>
                      (case fashion_lines (Suc idx) lines of
                         Inl e \<Rightarrow> Inl e
                       | Inr data \<Rightarrow>
                           Inr (\<lparr>id_col = idx, text_col = str_strip s,
                                 sentiment_col = sentiment\<rparr> # data))
                  | _ \<Rightarrow> Inl AttributeError)))"

definition format_fashion_reviews_for_evaluate ::
  "json_line list \<Rightarrow> error + formatted list" where
  "format_fashion_reviews_for_evaluate file = fashion_lines 0 file"

text \<open>
  \<^verbatim>\<open>format_financial_news_for_evaluate\<close>, lines 114 to 126, on the rows
  \<open>(sentiment, text)\<close> of the headerless two-column frame.
\<close>

fun financial_rows :: "nat \<Rightarrow> (cell \<times> cell) list \<Rightarrow> error + formatted list" where
  "financial_rows idx [] = Inr []"
| "financial_rows idx ((sentiment, text) # rows) =
     (case sentiment of
        NotStr \<Rightarrow> Inl AttributeError
      | Str s \<Rightarrow>
          (case text of
             NotStr \<Rightarrow> Inl AttributeError
           | Str t \<Rightarrow>
               (let sentiment' = str_lower (str_strip s); text' = str_strip t
                in if sentiment' = [] \<or> text' = [] then financial_rows (Suc idx) rows
                   else
                     (case financial_rows (Suc idx) rows of
                        Inl e \<Rightarrow> Inl e
                      | Inr data \<Rightarrow>
                          Inr (\<lparr>id_col = idx, text_col = text',
                                sentiment_col = sentiment'\<rparr> # data)))))"

definition format_financial_news_for_evaluate ::
  "(cell \<times> cell) list \<Rightarrow> error + formatted list" where
  "format_financial_news_for_evaluate df = financial_rows 0 df"

section \<open>The random generator\<close>

text \<open>
  The calls to Python's \<^verbatim>\<open>random\<close> module read a tape of draws, one natural number per
  call of the generator's \<^verbatim>\<open>_randbelow\<close> or \<^verbatim>\<open>random()\<close>. Every function takes the
  tape and returns what is left of it. A tape that ends too early gives \<open>OutOfDraws\<close>.
\<close>

type_synonym tape = "nat list"

text \<open>\<^verbatim>\<open>random.choice(seq)\<close>: \<^verbatim>\<open>seq[_randbelow(len(seq))]\<close>, IndexError on an empty sequence.\<close>

definition choice :: "'a list \<Rightarrow> tape \<Rightarrow> error + ('a \<times> tape)" where
  "choice seq tape =
     (if seq = [] then Inl IndexError
      else case tape of
             [] \<Rightarrow> Inl OutOfDraws
           | d # rest \<Rightarrow> Inr (seq ! (d mod length seq), rest))"

text \<open>
  \<^verbatim>\<open>random.randint(a, b)\<close> for \<open>a \<ge> 0\<close>: \<^verbatim>\<open>a + _randbelow(b - a + 1)\<close>, and ValueError
  (empty range) when \<open>b < a\<close>, raised before anything is drawn.
\<close>

definition randint :: "nat \<Rightarrow> int \<Rightarrow> tape \<Rightarrow> error + (nat \<times> tape)" where
  "randint a b tape =
     (if b < int a then Inl ValueError
      else case tape of
             [] \<Rightarrow> Inl OutOfDraws
           | d # rest \<Rightarrow> Inr (a + d mod nat (b - int a + 1), rest))"

text \<open>\<^verbatim>\<open>random.random()\<close>: a multiple of \<open>2\<^sup>-\<^sup>5\<^sup>3\<close> in \<open>[0, 1)\<close>.\<close>

definition random_unit :: "tape \<Rightarrow> error + (rat \<times> tape)" where
  "random_unit tape =
     (case tape of
        [] \<Rightarrow> Inl OutOfDraws
      | d # rest \<Rightarrow> Inr (of_nat (d mod 2 ^ 53) / 2 ^ 53, rest))"

text \<open>
  \<^verbatim>\<open>random.sample(population, k)\<close>, the pool branch the library takes when \<open>k\<close> is the
  length of the population: \<open>k\<close> times, draw a position \<open>j\<close> of the pool, emit the element
  there and move the pool's last element into position \<open>j\<close>.
\<close>

fun sample_pool :: "'a list \<Rightarrow> nat \<Rightarrow> tape \<Rightarrow> error + ('a list \<times> tape)" where
  "sample_pool pool k [] = (if k = 0 then Inr ([], []) else Inl OutOfDraws)"
| "sample_pool pool k (d # rest) =
     (if k = 0 then Inr ([], d # rest)
      else
        (let j = d mod length pool
         in case sample_pool (butlast (pool[j := last pool])) (k - 1) rest of
              Inl e \<Rightarrow> Inl e
            | Inr (result, tape') \<Rightarrow> Inr (pool ! j # result, tape')))"

definition sample :: "'a list \<Rightarrow> nat \<Rightarrow> tape \<Rightarrow> error + ('a list \<times> tape)" where
  "sample population k tape =
     (if length population < k then Inl ValueError else sample_pool population k tape)"

section \<open>The corruptor\<close>

datatype error_type = Substitution | Transposition | Omission | Duplication | Scramble

definition error_types :: "error_type list" where
  "error_types = [Substitution, Transposition, Omission, Duplication, Scramble]"

text \<open>
  Lines 149 to 167 of \<^verbatim>\<open>introduce_error\<close>: the chain of \<^verbatim>\<open>if\<close>/\<^verbatim>\<open>elif\<close> on the drawn
  kind. A slice is \<open>take\<close>/\<open>drop\<close>; an index \<^verbatim>\<open>word[i]\<close> raises IndexError out of range.
\<close>

definition apply_edit :: "error_type \<Rightarrow> string \<Rightarrow> int \<Rightarrow> tape \<Rightarrow> error + (string \<times> tape)" where
  "apply_edit error_type word severity tape =
     (if error_type = Substitution then
        (case randint 0 (int (length word) - 1) tape of
           Inl e \<Rightarrow> Inl e
         | Inr (idx, t1) \<Rightarrow>
             (case choice ''abcdefghijklmnopqrstuvwxyz'' t1 of
                Inl e \<Rightarrow> Inl e
              | Inr (replacement, t2) \<Rightarrow>
                  Inr (take idx word @ [replacement] @ drop (idx + 1) word, t2)))
      else if error_type = Transposition \<and> length word > 2 then
        (case randint 0 (int (length word) - 2) tape of
           Inl e \<Rightarrow> Inl e
         | Inr (idx, t1) \<Rightarrow>
             if idx + 1 < length word
             then Inr (take idx word @ [word ! (idx + 1)] @ [word ! idx]
                         @ drop (idx + 2) word, t1)
             else Inl IndexError)
      else if error_type = Omission then
        (case randint 0 (int (length word) - 1) tape of
           Inl e \<Rightarrow> Inl e
         | Inr (idx, t1) \<Rightarrow> Inr (take idx word @ drop (idx + 1) word, t1))
      else if error_type = Duplication then
        (case randint 0 (int (length word) - 1) tape of
           Inl e \<Rightarrow> Inl e
         | Inr (idx, t1) \<Rightarrow>
             if idx < length word
             then Inr (take idx word @ [word ! idx, word ! idx] @ drop (idx + 1) word, t1)
             else Inl IndexError)
      else if error_type = Scramble \<and> severity = 3 then
        sample word (length word) tape
      else Inr (word, tape))"

text \<open>
  The conditions of lines 170 and 172: whether another pass is made. \<^verbatim>\<open>random()\<close> is
  called once at severity 3 and once at severity 2 (\<^verbatim>\<open>and\<close> does not evaluate its right
  side when the left is false), and not at all otherwise. The thresholds are the
  rationals \<open>1 / 2\<close> and \<open>1 / 5\<close>: a multiple of \<open>2\<^sup>-\<^sup>5\<^sup>3\<close> is below the double nearest
  to 0.2 exactly when it is below \<open>1 / 5\<close>.
\<close>

definition compound :: "int \<Rightarrow> tape \<Rightarrow> error + (bool \<times> tape)" where
  "compound severity tape =
     (if severity = 3 then
        (case random_unit tape of Inl e \<Rightarrow> Inl e | Inr (u, t) \<Rightarrow> Inr (u < 1 / 2, t))
      else if severity = 2 then
        (case random_unit tape of Inl e \<Rightarrow> Inl e | Inr (u, t) \<Rightarrow> Inr (u < 1 / 5, t))
      else Inr (False, tape))"

function introduce_error :: "string \<Rightarrow> int \<Rightarrow> tape \<Rightarrow> error + (string \<times> tape)" where
  "introduce_error word severity tape =
     (if length word < 2 then Inr (word, tape)
      else
        (case choice error_types tape of
           Inl e \<Rightarrow> Inl e
         | Inr (error_type, t1) \<Rightarrow>
             (case apply_edit error_type word severity t1 of
                Inl e \<Rightarrow> Inl e
              | Inr (word', t2) \<Rightarrow>
                  (case compound severity t2 of
                     Inl e \<Rightarrow> Inl e
                   | Inr (again, t3) \<Rightarrow>
                       if again then introduce_error word' severity t3
                       else Inr (word', t3)))))"
  by pat_completeness auto
termination
proof (relation "measure (\<lambda>(word, severity, tape). length tape)")
  show "wf (measure (\<lambda>(word, severity, tape). length tape))" by simp
next
  fix word :: string and severity :: int and tape :: tape
    and x2 error_type t1 y2 word' t2 z2 again t3
  assume c: "choice error_types tape = Inr x2" "(error_type, t1) = x2"
    and a: "apply_edit error_type word severity t1 = Inr y2" "(word', t2) = y2"
    and r: "compound severity t2 = Inr z2" "(again, t3) = z2"
  have pool: "length t' \<le> length t"
    if "sample_pool p k t = Inr (res, t')" for p :: string and k t res t'
    using that
  proof (induction p k t arbitrary: res t' rule: sample_pool.induct)
    case (1 pool k)
    then show ?case by (simp split: if_splits)
  next
    case (2 pool k d rest)
    show ?case
    proof (cases "k = 0")
      case True
      with "2.prems" show ?thesis by simp
    next
      case False
      with "2.prems" obtain result
        where "sample_pool (butlast (pool[d mod length pool := last pool])) (k - 1) rest
                 = Inr (result, t')"
        by (auto simp: Let_def split: sum.splits prod.splits)
      from "2.IH" [OF False refl this] show ?thesis by simp
    qed
  qed
  have "length t1 < length tape"
    using c by (auto simp: choice_def split: if_splits list.splits)
  moreover have "length t2 \<le> length t1"
    using a pool [of word "length word" t1 word' t2]
    by (auto simp: apply_edit_def randint_def choice_def sample_def
             split: if_splits sum.splits list.splits prod.splits)
  moreover have "length t3 \<le> length t2"
    using r
    by (auto simp: compound_def random_unit_def split: if_splits sum.splits list.splits)
  ultimately show "((word', severity, t3), word, severity, tape)
      \<in> measure (\<lambda>(word, severity, tape). length tape)"
    by simp
qed

declare introduce_error.simps [simp del]

text \<open>Lines 180 to 185; with any other degree the name is unbound at line 187.\<close>

definition num_words_to_modify :: "nat \<Rightarrow> int \<Rightarrow> error + nat" where
  "num_words_to_modify n degree =
     (if degree = 1 then Inr (max 1 (n div 50))
      else if degree = 2 then Inr (max 1 (n div 10))
      else if degree = 3 then Inr (max 1 (n div 5))
      else Inl UnboundLocalError)"

text \<open>The loop of lines 187 to 189, run \<open>n\<close> times.\<close>

fun modify_words :: "nat \<Rightarrow> string list \<Rightarrow> int \<Rightarrow> tape \<Rightarrow> error + (string list \<times> tape)" where
  "modify_words 0 words degree tape = Inr (words, tape)"
| "modify_words (Suc n) words degree tape =
     (case randint 0 (int (length words) - 1) tape of
        Inl e \<Rightarrow> Inl e
      | Inr (idx, t1) \<Rightarrow>
          if idx < length words
          then (case introduce_error (words ! idx) degree t1 of
                  Inl e \<Rightarrow> Inl e
                | Inr (w, t2) \<Rightarrow> modify_words n (words[idx := w]) degree t2)
          else Inl IndexError)"

definition add_errors_to_text :: "string \<Rightarrow> int \<Rightarrow> tape \<Rightarrow> error + (string \<times> tape)" where
  "add_errors_to_text text degree tape =
     (case num_words_to_modify (length (str_split text)) degree of
        Inl e \<Rightarrow> Inl e
      | Inr n \<Rightarrow>
          (case modify_words n (str_split text) degree tape of
             Inl e \<Rightarrow> Inl e
           | Inr (words, t) \<Rightarrow> Inr (str_join '' '' words, t)))"

text \<open>
  Lines 193 to 195: the copy of the frame with \<^verbatim>\<open>add_errors_to_text\<close> applied to the
  text of every row, first row first.
\<close>

fun inject_spelling_errors ::
  "formatted list \<Rightarrow> int \<Rightarrow> tape \<Rightarrow> error + (formatted list \<times> tape)" where
  "inject_spelling_errors [] degree tape = Inr ([], tape)"
| "inject_spelling_errors (row # rows) degree tape =
     (case add_errors_to_text (text_col row) degree tape of
        Inl e \<Rightarrow> Inl e
      | Inr (x, t1) \<Rightarrow>
          (case inject_spelling_errors rows degree t1 of
             Inl e \<Rightarrow> Inl e
           | Inr (rows', t2) \<Rightarrow> Inr (row\<lparr>text_col := x\<rparr> # rows', t2)))"

section \<open>Notions the properties are stated with\<close>

text \<open>A word as \<^verbatim>\<open>str.split()\<close> yields it: not empty, no whitespace in it.\<close>

definition is_word :: "string \<Rightarrow> bool" where
  "is_word w = (w \<noteq> [] \<and> (\<forall>c \<in> set w. \<not> isspace c))"

text \<open>The number of positions at which two lists of words differ.\<close>

definition changed :: "string list \<Rightarrow> string list \<Rightarrow> nat" where
  "changed ws ws' = length (filter (\<lambda>(w, w'). w \<noteq> w') (zip ws ws'))"

text \<open>
  A tape none of whose draws, read by \<^verbatim>\<open>random()\<close>, is below 0.5: on it no pass
  compounds, at any severity.
\<close>

definition no_compounding :: "tape \<Rightarrow> bool" where
  "no_compounding tape = (\<forall>d \<in> set tape. (1 / 2 :: rat) \<le> of_nat (d mod 2 ^ 53) / 2 ^ 53)"

text \<open>
  A number of draws that is enough for a text at a degree when no pass compounds: each
  of the \<open>n\<close> iterations draws a position and a kind, at most as many numbers as the word
  has characters for the edit, and at most one for the decision to compound.
\<close>

definition draws_for :: "string \<Rightarrow> int \<Rightarrow> nat" where
  "draws_for text degree =
     (case num_words_to_modify (length (str_split text)) degree of
        Inl e \<Rightarrow> 0
      | Inr n \<Rightarrow> n * (sum_list (map length (str_split text)) + n + 3))"

section \<open>The normalizers: what they emit\<close>

text \<open>
  The product-review loop, started at line index \<open>k\<close>: the ids it emits increase
  strictly, and each is the index of a line whose review text is a string and whose
  rating has a sentiment.
\<close>

lemma fashion_lines_ids:
  "fashion_lines k js = Inr data \<Longrightarrow>
     sorted_wrt (<) (map id_col data) \<and>
     (\<forall>r \<in> set data. k \<le> id_col r \<and> id_col r < k + length js \<and>
        (\<exists>s ov. js ! (id_col r - k) = Object (PyStr s) ov \<and> s \<noteq> [] \<and>
           text_col r = str_strip s \<and> rating_sentiment ov = Some (sentiment_col r)))"
proof (induction js arbitrary: k data)
  case Nil
  then show ?case by simp
next
  case (Cons line lines)
  show ?case
  proof (cases "fashion_lines (Suc k) lines")
    case (Inl e)
    with Cons.prems show ?thesis
      by (auto split: json_line.splits if_splits option.splits pyval.splits)
  next
    case (Inr rest)
    note ih = Cons.IH [OF Inr]
    have later: "\<forall>r \<in> set rest. k \<le> id_col r \<and> id_col r < k + length (line # lines) \<and>
        (\<exists>s ov. (line # lines) ! (id_col r - k) = Object (PyStr s) ov \<and> s \<noteq> [] \<and>
           text_col r = str_strip s \<and> rating_sentiment ov = Some (sentiment_col r))"
    proof
      fix r assume "r \<in> set rest"
      with ih have a: "Suc k \<le> id_col r" "id_col r < Suc k + length lines"
        and b: "\<exists>s ov. lines ! (id_col r - Suc k) = Object (PyStr s) ov \<and> s \<noteq> [] \<and>
           text_col r = str_strip s \<and> rating_sentiment ov = Some (sentiment_col r)"
        by auto
      from a have "id_col r - k = Suc (id_col r - Suc k)" by simp
      with a b show "k \<le> id_col r \<and> id_col r < k + length (line # lines) \<and>
        (\<exists>s ov. (line # lines) ! (id_col r - k) = Object (PyStr s) ov \<and> s \<noteq> [] \<and>
           text_col r = str_strip s \<and> rating_sentiment ov = Some (sentiment_col r))"
        by simp
    qed
    from Cons.prems Inr consider (skip) "data = rest"
      | (emit) s ov sent where "line = Object (PyStr s) ov" "s \<noteq> []"
          "rating_sentiment ov = Some sent"
          "data = \<lparr>id_col = k, text_col = str_strip s, sentiment_col = sent\<rparr> # rest"
      by (auto split: json_line.splits if_splits option.splits pyval.splits)
    then show ?thesis
    proof cases
      case skip
      with ih later show ?thesis by simp
    next
      case emit
      have "\<forall>r \<in> set rest. k < id_col r" using ih by auto
      with emit ih later show ?thesis by auto
    qed
  qed
qed

text \<open>
  The product-review normalizer returns (raises nothing) when every line decodes to an
  object whose review text is absent or a string.
\<close>

lemma fashion_lines_returns:
  "\<forall>l \<in> set js. \<exists>rt ov. l = Object rt ov \<and> (rt = PyNone \<or> (\<exists>s. rt = PyStr s))
     \<Longrightarrow> \<exists>data. fashion_lines k js = Inr data"
proof (induction js arbitrary: k)
  case Nil
  then show ?case by simp
next
  case (Cons l ls)
  from Cons.prems have "\<exists>data. fashion_lines (Suc k) ls = Inr data"
    by (intro Cons.IH) simp
  moreover from Cons.prems obtain rt ov
    where "l = Object rt ov" "rt = PyNone \<or> (\<exists>s. rt = PyStr s)"
    by auto
  ultimately show ?case
    by (auto split: option.splits)
qed

text \<open>
  C9. When the product-review normalizer returns, the ids of its records increase
  strictly and are indices of input lines; each record comes from the line at its id
  (that line's review text, stripped, and the sentiment of its rating); and a line whose
  rating equals none of 1, 2, 3, 4, 5 (so a rating of 3.5, or a missing one) has no
  record.
\<close>

theorem fashion_ids_are_line_indices:
  "format_fashion_reviews_for_evaluate js = Inr data \<Longrightarrow>
     sorted_wrt (<) (map id_col data) \<and>
     id_col ` set data \<subseteq> {0..<length js} \<and>
     (\<forall>r \<in> set data. \<exists>s ov. js ! id_col r = Object (PyStr s) ov \<and>
        text_col r = str_strip s \<and> rating_sentiment ov = Some (sentiment_col r)) \<and>
     (\<forall>i < length js. \<forall>rt ov.
        js ! i = Object rt ov \<and> (\<forall>q \<in> {1, 2, 3, 4, 5}. \<not> py_eq ov q)
          \<longrightarrow> i \<notin> id_col ` set data) \<and>
     (\<forall>i < length js. \<forall>rt.
        js ! i = Object rt (PyNum (7 / 2)) \<or> js ! i = Object rt PyNone
          \<longrightarrow> i \<notin> id_col ` set data)"
proof -
  assume "format_fashion_reviews_for_evaluate js = Inr data"
  then have run: "fashion_lines 0 js = Inr data"
    by (simp add: format_fashion_reviews_for_evaluate_def)
  note ids = fashion_lines_ids [OF run]
  have sorted: "sorted_wrt (<) (map id_col data)"
    using ids by simp
  have from_line: "\<forall>r \<in> set data. id_col r < length js \<and>
      (\<exists>s ov. js ! id_col r = Object (PyStr s) ov \<and>
        text_col r = str_strip s \<and> rating_sentiment ov = Some (sentiment_col r))"
    using ids by fastforce
  have dropped: "i \<notin> id_col ` set data"
    if "js ! i = Object rt ov" "\<forall>q \<in> {1, 2, 3, 4, 5}. \<not> py_eq ov q" for i rt ov
  proof
    assume "i \<in> id_col ` set data"
    then obtain r where r: "r \<in> set data" "i = id_col r" by auto
    with from_line obtain s ov' where "js ! i = Object (PyStr s) ov'"
      "rating_sentiment ov' = Some (sentiment_col r)"
      by blast
    with that show False
      by (simp add: rating_sentiment_def)
  qed
  have special: "i \<notin> id_col ` set data"
    if "js ! i = Object rt (PyNum (7 / 2)) \<or> js ! i = Object rt PyNone" for i rt
    using that dropped [of i rt "PyNum (7 / 2)"] dropped [of i rt PyNone]
    by auto
  from sorted from_line dropped special show ?thesis
    by (intro conjI) (auto simp del: py_eq.simps)
qed

theorem fashion_ids_are_line_indices_witness:
  "format_fashion_reviews_for_evaluate
     [Object (PyStr ''Great fit'') (PyNum 5), Object (PyStr ''So so'') (PyNum (7 / 2)),
      Object (PyStr ''No stars'') PyNone, Object (PyStr '' Fine '') (PyNum 3)]
    = Inr [\<lparr>id_col = 0, text_col = ''Great fit'', sentiment_col = ''positive''\<rparr>,
           \<lparr>id_col = 3, text_col = ''Fine'', sentiment_col = ''neutral''\<rparr>]
   \<and> sorted_wrt (<) [0, 3 :: nat]
   \<and> 1 \<notin> {0, 3 :: nat} \<and> 2 \<notin> {0, 3 :: nat}"
proof -
  have run: "format_fashion_reviews_for_evaluate
     [Object (PyStr ''Great fit'') (PyNum 5), Object (PyStr ''So so'') (PyNum (7 / 2)),
      Object (PyStr ''No stars'') PyNone, Object (PyStr '' Fine '') (PyNum 3)]
    = Inr [\<lparr>id_col = 0, text_col = ''Great fit'', sentiment_col = ''positive''\<rparr>,
           \<lparr>id_col = 3, text_col = ''Fine'', sentiment_col = ''neutral''\<rparr>]"
    by (simp add: format_fashion_reviews_for_evaluate_def rating_sentiment_def
                  str_strip_def isspace_def)
  from fashion_ids_are_line_indices [OF run] run show ?thesis
    by simp
qed

text \<open>
  C7. On the two-row table of the scenario the movie-review normalizer returns the
  records with ids 0 and 1 and the sentiments unchanged; the line-break marker between
  \<open>Great movie!\<close> and \<open>Loved it\<close> becomes exactly one space.
\<close>

theorem movie_scenario:
  "format_movie_reviews_for_evaluate
     [(Str ''Great movie!<br />Loved it'', ''positive''), (Str ''Bad.'', ''negative'')]
   = Inr [\<lparr>id_col = 0, text_col = ''Great movie! Loved it'', sentiment_col = ''positive''\<rparr>,
          \<lparr>id_col = 1, text_col = ''Bad.'', sentiment_col = ''negative''\<rparr>]"
  by (simp add: format_movie_reviews_for_evaluate_def str_strip_def isspace_def)

text \<open>The text with two spaces, as the scenario words it, is not what is returned.\<close>

theorem movie_scenario_two_spaces_counterexample:
  "format_movie_reviews_for_evaluate
     [(Str ''Great movie!<br />Loved it'', ''positive''), (Str ''Bad.'', ''negative'')]
   \<noteq> Inr [\<lparr>id_col = 0, text_col = ''Great movie!  Loved it'', sentiment_col = ''positive''\<rparr>,
          \<lparr>id_col = 1, text_col = ''Bad.'', sentiment_col = ''negative''\<rparr>]"
  by (simp add: format_movie_reviews_for_evaluate_def str_strip_def isspace_def)

section \<open>The corruptor: one word\<close>

subsection \<open>The random primitives\<close>

lemma random_unit_Inr:
  "random_unit tape = Inr (u, t) \<Longrightarrow> 0 \<le> u \<and> u < 1 \<and> (\<exists>d. tape = d # t)"
  by (auto simp: random_unit_def split: list.splits)

lemma compound_Inr:
  "compound severity tape = Inr (again, t) \<Longrightarrow> length t \<le> length tape"
  by (auto simp: compound_def random_unit_def split: if_splits list.splits)

lemma mset_pool_step:
  "j < length pool \<Longrightarrow> add_mset (pool ! j) (mset (butlast (pool[j := last pool]))) = mset pool"
proof (cases pool rule: rev_cases)
  case Nil
  assume "j < length pool"
  with Nil show ?thesis by simp
next
  case (snoc xs l)
  assume j: "j < length pool"
  show ?thesis
  proof (cases "j = length xs")
    case True
    with snoc show ?thesis by simp
  next
    case False
    with j snoc have jx: "j < length xs" by simp
    then have "xs ! j \<in># mset xs" by simp
    with jx snoc show ?thesis
      by (simp add: list_update_append1 nth_append mset_update)
  qed
qed

lemma sample_pool_perm:
  "k = length pool \<Longrightarrow> sample_pool pool k tape = Inr (res, tape') \<Longrightarrow>
     mset res = mset pool \<and> length tape = length tape' + k"
proof (induction pool k tape arbitrary: res tape' rule: sample_pool.induct)
  case (1 pool k)
  then show ?case by (simp split: if_splits)
next
  case (2 pool k d rest)
  show ?case
  proof (cases "k = 0")
    case True
    with "2.prems" show ?thesis by simp
  next
    case False
    let ?j = "d mod length pool"
    from "2.prems" False obtain result
      where rec: "sample_pool (butlast (pool[?j := last pool])) (k - 1) rest = Inr (result, tape')"
        and res: "res = pool ! ?j # result"
      by (auto simp: Let_def split: sum.splits prod.splits)
    from False "2.prems"(1) have j: "?j < length pool" by simp
    have len: "k - 1 = length (butlast (pool[?j := last pool]))"
      using "2.prems"(1) by simp
    from "2.IH" [OF False refl len rec]
    have "mset result = mset (butlast (pool[?j := last pool]))"
      and "length rest = length tape' + (k - 1)"
      by simp_all
    with res False mset_pool_step [OF j] show ?thesis by simp
  qed
qed

lemma sample_pool_returns:
  "k \<le> length tape \<Longrightarrow> \<exists>res tape'. sample_pool pool k tape = Inr (res, tape')"
proof (induction pool k tape rule: sample_pool.induct)
  case (1 pool k)
  then show ?case by simp
next
  case (2 pool k d rest)
  show ?case
  proof (cases "k = 0")
    case True
    then show ?thesis by simp
  next
    case False
    with "2.prems" have "k - 1 \<le> length rest" by simp
    from "2.IH" [OF False refl this] False show ?thesis
      by (auto simp: Let_def)
  qed
qed

lemma sample_pool_Inl:
  "sample_pool pool k tape = Inl e \<Longrightarrow> e = OutOfDraws"
proof (induction pool k tape rule: sample_pool.induct)
  case (1 pool k)
  then show ?case by (simp split: if_splits)
next
  case (2 pool k d rest)
  show ?case
  proof (cases "k = 0")
    case True
    with "2.prems" show ?thesis by simp
  next
    case False
    with "2.prems"
    have "sample_pool (butlast (pool[d mod length pool := last pool])) (k - 1) rest = Inl e"
      by (auto simp: Let_def split: sum.splits prod.splits)
    from "2.IH" [OF False refl this] show ?thesis .
  qed
qed

lemma lowercase_not_space: "c \<in> set ''abcdefghijklmnopqrstuvwxyz'' \<Longrightarrow> \<not> isspace c"
  by (auto simp: isspace_def)

subsection \<open>One edit\<close>

lemma randint_index:
  "0 < n \<Longrightarrow> randint 0 (int n - 1) tape =
     (case tape of [] \<Rightarrow> Inl OutOfDraws | d # rest \<Rightarrow> Inr (d mod n, rest))"
proof -
  assume "0 < n"
  then have "nat (int n - 1 - int 0 + 1) = n" "\<not> int n - 1 < int 0"
    by simp_all
  then show ?thesis
    unfolding randint_def by (simp split: list.splits)
qed

lemma randint_index2:
  "1 < n \<Longrightarrow> randint 0 (int n - 2) tape =
     (case tape of [] \<Rightarrow> Inl OutOfDraws | d # rest \<Rightarrow> Inr (d mod (n - 1), rest))"
proof -
  assume "1 < n"
  then have "nat (int n - 2 - int 0 + 1) = n - 1" "\<not> int n - 2 < int 0"
    by simp_all
  then show ?thesis
    unfolding randint_def by (simp split: list.splits)
qed

lemma choice_letter:
  "choice ''abcdefghijklmnopqrstuvwxyz'' tape =
     (case tape of
        [] \<Rightarrow> Inl OutOfDraws
      | d # rest \<Rightarrow> Inr (''abcdefghijklmnopqrstuvwxyz'' ! (d mod 26), rest))"
  by (simp add: choice_def split: list.splits)

lemma choice_error_type:
  "choice error_types tape =
     (case tape of [] \<Rightarrow> Inl OutOfDraws | d # rest \<Rightarrow> Inr (error_types ! (d mod 5), rest))"
  by (simp add: choice_def error_types_def split: list.splits)

lemma apply_edit_Substitution:
  "word \<noteq> [] \<Longrightarrow> apply_edit Substitution word severity tape =
     (case tape of
        d # c # rest \<Rightarrow>
          Inr (take (d mod length word) word @ [''abcdefghijklmnopqrstuvwxyz'' ! (c mod 26)]
                 @ drop (d mod length word + 1) word, rest)
      | _ \<Rightarrow> Inl OutOfDraws)"
  by (simp add: apply_edit_def randint_index choice_letter split: list.splits)

lemma apply_edit_Transposition:
  "apply_edit Transposition word severity tape =
     (if length word > 2 then
        (case tape of
           d # rest \<Rightarrow>
             Inr (take (d mod (length word - 1)) word @ [word ! (d mod (length word - 1) + 1)]
                    @ [word ! (d mod (length word - 1))]
                    @ drop (d mod (length word - 1) + 2) word, rest)
         | [] \<Rightarrow> Inl OutOfDraws)
      else Inr (word, tape))"
proof (cases "length word > 2")
  case True
  then have "d mod (length word - 1) + 1 < length word" for d
    using mod_less_divisor [of "length word - 1" d] by linarith
  with True show ?thesis
    by (simp add: apply_edit_def randint_index2 split: list.splits)
next
  case False
  then show ?thesis by (simp add: apply_edit_def)
qed

lemma apply_edit_Omission:
  "word \<noteq> [] \<Longrightarrow> apply_edit Omission word severity tape =
     (case tape of
        d # rest \<Rightarrow> Inr (take (d mod length word) word @ drop (d mod length word + 1) word, rest)
      | [] \<Rightarrow> Inl OutOfDraws)"
  by (simp add: apply_edit_def randint_index split: list.splits)

lemma apply_edit_Duplication:
  "word \<noteq> [] \<Longrightarrow> apply_edit Duplication word severity tape =
     (case tape of
        d # rest \<Rightarrow>
          Inr (take (d mod length word) word @ [word ! (d mod length word), word ! (d mod length word)]
                 @ drop (d mod length word + 1) word, rest)
      | [] \<Rightarrow> Inl OutOfDraws)"
  by (simp add: apply_edit_def randint_index split: list.splits)

lemma apply_edit_Scramble:
  "apply_edit Scramble word severity tape =
     (if severity = 3 then sample_pool word (length word) tape else Inr (word, tape))"
  by (simp add: apply_edit_def sample_def)

subsection \<open>What an edit keeps\<close>

lemma letter_not_space: "\<not> isspace (''abcdefghijklmnopqrstuvwxyz'' ! (c mod 26))"
proof -
  have "c mod 26 < length ''abcdefghijklmnopqrstuvwxyz''" by simp
  then have "''abcdefghijklmnopqrstuvwxyz'' ! (c mod 26) \<in> set ''abcdefghijklmnopqrstuvwxyz''"
    by (rule nth_mem)
  then show ?thesis by (rule lowercase_not_space)
qed

lemma is_word_substitution:
  assumes "is_word word" "\<not> isspace r"
  shows "is_word (take idx word @ [r] @ drop (idx + 1) word)"
  using assms by (auto simp: is_word_def dest: in_set_takeD in_set_dropD)

lemma is_word_transposition:
  assumes "is_word word" "idx + 1 < length word"
  shows "is_word (take idx word @ [word ! (idx + 1)] @ [word ! idx] @ drop (idx + 2) word)"
  using assms by (auto simp: is_word_def dest: in_set_takeD in_set_dropD)

lemma is_word_omission:
  assumes "is_word word" "2 \<le> length word"
  shows "is_word (take idx word @ drop (idx + 1) word)"
proof -
  have "length (take idx word @ drop (idx + 1) word) \<noteq> 0"
    using assms(2) by (cases "idx < length word") auto
  then have "take idx word @ drop (idx + 1) word \<noteq> []"
    by (simp only: length_0_conv not_False_eq_True)
  with assms(1) show ?thesis
    by (auto simp: is_word_def dest: in_set_takeD in_set_dropD)
qed

lemma is_word_duplication:
  assumes "is_word word" "idx < length word"
  shows "is_word (take idx word @ [word ! idx, word ! idx] @ drop (idx + 1) word)"
  using assms by (auto simp: is_word_def dest: in_set_takeD in_set_dropD)

lemma is_word_mset:
  assumes "is_word word" "mset w = mset word"
  shows "is_word w"
proof -
  from assms(2) have "set w = set word" by (rule mset_eq_setD)
  moreover from assms have "w \<noteq> []" by (auto simp: is_word_def)
  ultimately show ?thesis using assms(1) by (simp add: is_word_def)
qed

text \<open>An edit of a word of at least two characters gives a word again.\<close>

lemma apply_edit_word:
  assumes len: "2 \<le> length word" and w: "is_word word"
    and run: "apply_edit k word severity t = Inr (w', t')"
  shows "is_word w'"
proof -
  from len have ne: "word \<noteq> []" by auto
  show ?thesis
  proof (cases k)
    case Substitution
    with run ne obtain d c where
      "w' = take (d mod length word) word @ [''abcdefghijklmnopqrstuvwxyz'' ! (c mod 26)]
              @ drop (d mod length word + 1) word"
      by (auto simp: apply_edit_Substitution split: list.splits)
    then show ?thesis
      using is_word_substitution [OF w letter_not_space] by simp
  next
    case Transposition
    show ?thesis
    proof (cases "length word > 2")
      case True
      let ?n = "length word - 1"
      from run Transposition True obtain d where
        "w' = take (d mod ?n) word @ [word ! (d mod ?n + 1)] @ [word ! (d mod ?n)]
                @ drop (d mod ?n + 2) word"
        by (auto simp: apply_edit_Transposition split: list.splits)
      moreover from True have "d mod ?n + 1 < length word"
        using mod_less_divisor [of ?n d] by linarith
      ultimately show ?thesis
        using is_word_transposition [OF w] by simp
    next
      case False
      with run Transposition w show ?thesis
        by (simp add: apply_edit_Transposition)
    qed
  next
    case Omission
    with run ne obtain d where
      "w' = take (d mod length word) word @ drop (d mod length word + 1) word"
      by (auto simp: apply_edit_Omission split: list.splits)
    then show ?thesis
      using is_word_omission [OF w len] by simp
  next
    case Duplication
    with run ne obtain d where
      "w' = take (d mod length word) word @ [word ! (d mod length word), word ! (d mod length word)]
              @ drop (d mod length word + 1) word"
      by (auto simp: apply_edit_Duplication split: list.splits)
    moreover from ne have "d mod length word < length word" by simp
    ultimately show ?thesis
      using is_word_duplication [OF w] by simp
  next
    case Scramble
    show ?thesis
    proof (cases "severity = 3")
      case True
      with run Scramble have "sample_pool word (length word) t = Inr (w', t')"
        by (simp add: apply_edit_Scramble)
      from sample_pool_perm [OF refl this] w show ?thesis
        using is_word_mset [of word w'] by simp
    next
      case False
      with run Scramble w show ?thesis
        by (simp add: apply_edit_Scramble)
    qed
  qed
qed

text \<open>
  What an edit draws and how long its result is: at most \<open>length word\<close> draws (a
  scramble draws that many), and the word grows by at most one character.
\<close>

lemma apply_edit_size:
  assumes len: "2 \<le> length word"
    and run: "apply_edit k word severity t = Inr (w', t')"
  shows "length t' \<le> length t \<and> length t \<le> length t' + length word
           \<and> length w' \<le> length word + 1"
proof -
  from len have ne: "word \<noteq> []" by auto
  then have m: "d mod length word < length word" for d by simp
  show ?thesis
  proof (cases k)
    case Substitution
    with run ne obtain d c where "t = d # c # t'"
      "w' = take (d mod length word) word @ [''abcdefghijklmnopqrstuvwxyz'' ! (c mod 26)]
              @ drop (d mod length word + 1) word"
      by (auto simp: apply_edit_Substitution split: list.splits)
    with len m [of d] show ?thesis by simp
  next
    case Transposition
    show ?thesis
    proof (cases "length word > 2")
      case True
      let ?n = "length word - 1"
      from run Transposition True obtain d where "t = d # t'"
        "w' = take (d mod ?n) word @ [word ! (d mod ?n + 1)] @ [word ! (d mod ?n)]
                @ drop (d mod ?n + 2) word"
        by (auto simp: apply_edit_Transposition split: list.splits)
      moreover from True have "d mod ?n + 1 < length word"
        using mod_less_divisor [of ?n d] by linarith
      ultimately show ?thesis using len by simp
    next
      case False
      with run Transposition show ?thesis
        by (simp add: apply_edit_Transposition)
    qed
  next
    case Omission
    with run ne obtain d where "t = d # t'"
      "w' = take (d mod length word) word @ drop (d mod length word + 1) word"
      by (auto simp: apply_edit_Omission split: list.splits)
    with len m [of d] show ?thesis by simp
  next
    case Duplication
    with run ne obtain d where "t = d # t'"
      "w' = take (d mod length word) word @ [word ! (d mod length word), word ! (d mod length word)]
              @ drop (d mod length word + 1) word"
      by (auto simp: apply_edit_Duplication split: list.splits)
    with len m [of d] show ?thesis by simp
  next
    case Scramble
    show ?thesis
    proof (cases "severity = 3")
      case True
      with run Scramble have "sample_pool word (length word) t = Inr (w', t')"
        by (simp add: apply_edit_Scramble)
      from sample_pool_perm [OF refl this] have "mset w' = mset word"
        and "length t = length t' + length word" by simp_all
      moreover from this(1) have "length w' = length word" by (rule mset_eq_length)
      ultimately show ?thesis by simp
    next
      case False
      with run Scramble show ?thesis
        by (simp add: apply_edit_Scramble)
    qed
  qed
qed

text \<open>With enough draws left an edit returns; the only failure is a tape that ends.\<close>

lemma apply_edit_returns:
  assumes len: "2 \<le> length word" and draws: "length word \<le> length t"
  shows "\<exists>w' t'. apply_edit k word severity t = Inr (w', t')"
proof -
  from len have ne: "word \<noteq> []" by auto
  from len draws obtain d c rest where t: "t = d # c # rest"
    by (cases t; cases "tl t") auto
  show ?thesis
  proof (cases k)
    case Substitution
    with ne t show ?thesis by (simp add: apply_edit_Substitution)
  next
    case Transposition
    with t show ?thesis by (simp add: apply_edit_Transposition)
  next
    case Omission
    with ne t show ?thesis by (simp add: apply_edit_Omission)
  next
    case Duplication
    with ne t show ?thesis by (simp add: apply_edit_Duplication)
  next
    case Scramble
    with sample_pool_returns [OF draws, of word] show ?thesis
      by (simp add: apply_edit_Scramble)
  qed
qed

lemma apply_edit_Inl:
  assumes len: "2 \<le> length word" and run: "apply_edit k word severity t = Inl e"
  shows "e = OutOfDraws"
proof -
  from len have ne: "word \<noteq> []" by auto
  show ?thesis
  proof (cases k)
    case Substitution
    with run ne show ?thesis
      by (auto simp: apply_edit_Substitution split: list.splits)
  next
    case Transposition
    with run show ?thesis
      by (auto simp: apply_edit_Transposition split: list.splits if_splits)
  next
    case Omission
    with run ne show ?thesis
      by (auto simp: apply_edit_Omission split: list.splits)
  next
    case Duplication
    with run ne show ?thesis
      by (auto simp: apply_edit_Duplication split: list.splits)
  next
    case Scramble
    with run show ?thesis
      by (auto simp: apply_edit_Scramble split: if_splits dest: sample_pool_Inl)
  qed
qed

subsection \<open>The passes of \<open>introduce_error\<close>\<close>

lemma introduce_error_Nil:
  "2 \<le> length word \<Longrightarrow> introduce_error word severity [] = Inl OutOfDraws"
  by (simp add: introduce_error.simps [of word severity "[]"] choice_error_type)

lemma introduce_error_Cons:
  "2 \<le> length word \<Longrightarrow> introduce_error word severity (d # t1) =
     (case apply_edit (error_types ! (d mod 5)) word severity t1 of
        Inl e \<Rightarrow> Inl e
      | Inr (word', t2) \<Rightarrow>
          (case compound severity t2 of
             Inl e \<Rightarrow> Inl e
           | Inr (again, t3) \<Rightarrow>
               if again then introduce_error word' severity t3 else Inr (word', t3)))"
  by (simp add: introduce_error.simps [of word severity "d # t1"] choice_error_type)

lemma compound_light:
  "severity \<noteq> 2 \<Longrightarrow> severity \<noteq> 3 \<Longrightarrow> compound severity tape = Inr (False, tape)"
  by (simp add: compound_def)

lemma compound_Inl: "compound severity tape = Inl e \<Longrightarrow> e = OutOfDraws"
  by (auto simp: compound_def random_unit_def split: if_splits list.splits)

text \<open>A word stays a word through all the passes, and the tape only gets shorter.\<close>

lemma introduce_error_word:
  "is_word word \<Longrightarrow> introduce_error word severity tape = Inr (w', t') \<Longrightarrow>
     is_word w' \<and> length t' \<le> length tape"
proof (induction word severity tape arbitrary: w' t' rule: introduce_error.induct)
  case (1 word severity tape)
  show ?case
  proof (cases "length word < 2")
    case True
    with "1.prems" show ?thesis by (simp add: introduce_error.simps [of word])
  next
    case False
    then have len: "2 \<le> length word" by simp
    from "1.prems"(2) len obtain d t1 where tape: "tape = d # t1"
      by (cases tape) (auto simp: introduce_error_Nil)
    let ?k = "error_types ! (d mod 5)"
    have ch: "choice error_types tape = Inr (?k, t1)"
      by (simp add: tape choice_error_type)
    from "1.prems"(2) len tape obtain word' t2 again t3
      where ed: "apply_edit ?k word severity t1 = Inr (word', t2)"
        and co: "compound severity t2 = Inr (again, t3)"
        and res: "(if again then introduce_error word' severity t3 else Inr (word', t3))
                    = Inr (w', t')"
      by (auto simp: introduce_error_Cons split: sum.splits prod.splits)
    from apply_edit_word [OF len "1.prems"(1) ed] have w: "is_word word'" .
    from apply_edit_size [OF len ed] compound_Inr [OF co] tape
    have short: "length t3 \<le> length tape" by simp
    show ?thesis
    proof (cases again)
      case True
      with res have "introduce_error word' severity t3 = Inr (w', t')" by simp
      from "1.IH" [OF False ch refl ed refl co refl True w this] short
      show ?thesis by simp
    next
      case False
      with res w short show ?thesis by simp
    qed
  qed
qed

lemma introduce_error_Inl:
  "introduce_error word severity tape = Inl e \<Longrightarrow> e = OutOfDraws"
proof (induction word severity tape rule: introduce_error.induct)
  case (1 word severity tape)
  show ?case
  proof (cases "length word < 2")
    case True
    with "1.prems" show ?thesis by (simp add: introduce_error.simps [of word])
  next
    case False
    then have len: "2 \<le> length word" by simp
    show ?thesis
    proof (cases tape)
      case Nil
      with "1.prems" len show ?thesis by (simp add: introduce_error_Nil)
    next
      case (Cons d t1)
      let ?k = "error_types ! (d mod 5)"
      have ch: "choice error_types tape = Inr (?k, t1)"
        by (simp add: Cons choice_error_type)
      show ?thesis
      proof (cases "apply_edit ?k word severity t1")
        case (Inl e')
        with "1.prems" len Cons have "e = e'" by (simp add: introduce_error_Cons)
        with apply_edit_Inl [OF len Inl] show ?thesis by simp
      next
        case (Inr r)
        obtain word' t2 where r: "r = (word', t2)" by (cases r)
        note ed = Inr [unfolded r]
        show ?thesis
        proof (cases "compound severity t2")
          case (Inl e')
          with "1.prems" len Cons ed have "e = e'" by (simp add: introduce_error_Cons)
          with compound_Inl [OF Inl] show ?thesis by simp
        next
          case (Inr c)
          obtain again t3 where c: "c = (again, t3)" by (cases c)
          note co = Inr [unfolded c]
          from "1.prems" len Cons ed co
          have again and "introduce_error word' severity t3 = Inl e"
            by (auto simp: introduce_error_Cons split: if_splits)
          from "1.IH" [OF False ch refl ed refl co refl this] show ?thesis .
        qed
      qed
    qed
  qed
qed

text \<open>
  C3. A word of fewer than two characters is returned as it is, at every severity, and
  no draw is made.
\<close>

theorem introduce_error_short_word:
  "length word < 2 \<Longrightarrow> introduce_error word severity tape = Inr (word, tape)"
  by (simp add: introduce_error.simps)

theorem introduce_error_short_word_witness:
  "length ''a'' < 2 \<and> introduce_error ''a'' 3 [0, 1, 2] = Inr (''a'', [0, 1, 2])"
  using introduce_error_short_word [of "''a''" 3 "[0, 1, 2]"] by simp

text \<open>
  C4. When the drawn kind is scramble and the severity is not 3, the edit leaves the
  word and the tape as they are; no other kind is drawn in its place, so the pass goes
  straight to the compounding decision (and at severity 1 returns the word unchanged).
  At severity 3 the edit is \<^verbatim>\<open>random.sample(word, len(word))\<close>: it returns whenever the
  tape holds \<open>length word\<close> more draws, and what it returns is a permutation of the word.
\<close>

theorem scramble_only_when_severe:
  "(severity \<noteq> 3 \<longrightarrow> apply_edit Scramble word severity tape = Inr (word, tape)) \<and>
   apply_edit Scramble word 3 tape = sample word (length word) tape \<and>
   (\<forall>word' tape'. sample word (length word) tape = Inr (word', tape')
      \<longrightarrow> mset word' = mset word \<and> length tape = length tape' + length word) \<and>
   (length word \<le> length tape
      \<longrightarrow> (\<exists>word' tape'. sample word (length word) tape = Inr (word', tape'))) \<and>
   (2 \<le> length word \<and> severity \<noteq> 3 \<and> choice error_types (d # tape) = Inr (Scramble, tape)
      \<longrightarrow> introduce_error word severity (d # tape) =
            (case compound severity tape of
               Inl e \<Rightarrow> Inl e
             | Inr (again, t3) \<Rightarrow>
                 if again then introduce_error word severity t3 else Inr (word, t3))) \<and>
   (2 \<le> length word \<and> severity = 1 \<and> choice error_types (d # tape) = Inr (Scramble, tape)
      \<longrightarrow> introduce_error word severity (d # tape) = Inr (word, tape))"
proof (intro conjI impI allI)
  assume "severity \<noteq> 3"
  then show "apply_edit Scramble word severity tape = Inr (word, tape)"
    by (simp add: apply_edit_Scramble)
next
  show "apply_edit Scramble word 3 tape = sample word (length word) tape"
    by (simp add: apply_edit_Scramble sample_def)
next
  fix word' tape'
  assume "sample word (length word) tape = Inr (word', tape')"
  then have "sample_pool word (length word) tape = Inr (word', tape')"
    by (simp add: sample_def)
  from sample_pool_perm [OF refl this]
  show "mset word' = mset word" and "length tape = length tape' + length word"
    by simp_all
next
  assume "length word \<le> length tape"
  from sample_pool_returns [OF this, of word]
  show "\<exists>word' tape'. sample word (length word) tape = Inr (word', tape')"
    by (simp add: sample_def)
next
  assume a: "2 \<le> length word \<and> severity \<noteq> 3
               \<and> choice error_types (d # tape) = Inr (Scramble, tape)"
  then have "error_types ! (d mod 5) = Scramble"
    by (simp add: choice_error_type)
  with a show "introduce_error word severity (d # tape) =
      (case compound severity tape of
         Inl e \<Rightarrow> Inl e
       | Inr (again, t3) \<Rightarrow>
           if again then introduce_error word severity t3 else Inr (word, t3))"
    by (simp add: introduce_error_Cons apply_edit_Scramble)
next
  assume a: "2 \<le> length word \<and> severity = 1
               \<and> choice error_types (d # tape) = Inr (Scramble, tape)"
  then have "error_types ! (d mod 5) = Scramble"
    by (simp add: choice_error_type)
  with a show "introduce_error word severity (d # tape) = Inr (word, tape)"
    by (simp add: introduce_error_Cons apply_edit_Scramble compound_light)
qed

theorem scramble_only_when_severe_witness:
  "apply_edit Scramble ''the'' 2 [7] = Inr (''the'', [7]) \<and>
   sample ''the'' (length ''the'') [1, 1, 0] = Inr (''het'', []) \<and>
   mset ''het'' = mset ''the'' \<and>
   choice error_types [4] = Inr (Scramble, []) \<and>
   introduce_error ''the'' 1 [4] = Inr (''the'', [])"
proof -
  have s: "sample ''the'' (length ''the'') [1, 1, 0] = Inr (''het'', [])"
    by (simp add: sample_def)
  have c: "choice error_types [4] = Inr (Scramble, [])"
    by (simp add: choice_def error_types_def)
  from scramble_only_when_severe [of 2 "''the''" "[7]" 0]
  have "apply_edit Scramble ''the'' 2 [7] = Inr (''the'', [7])" by simp
  moreover from scramble_only_when_severe [of 3 "''the''" "[1, 1, 0]" 0] s
  have "mset ''het'' = mset ''the''" by blast
  moreover have "2 \<le> length ''the''" by simp
  with scramble_only_when_severe [of 1 "''the''" "[]" 4] c
  have "introduce_error ''the'' 1 [4] = Inr (''the'', [])" by blast
  ultimately show ?thesis using s c by simp
qed

text \<open>
  C5. Let a pass on a word of at least two characters draw the kind and make its edit,
  giving \<open>word'\<close>. At severity 3 the next draw \<open>u\<close> of \<^verbatim>\<open>random()\<close> decides: another pass
  on \<open>word'\<close> exactly when \<open>u < 0.5\<close>. At severity 2 likewise with \<open>u < 0.2\<close>. At any
  other severity nothing is drawn and \<open>word'\<close> is returned. The draw \<open>u\<close> is the next
  element of the tape, read as a number in \<open>[0, 1)\<close>.
\<close>

theorem compounding_by_fresh_draw:
  assumes "2 \<le> length word"
    and "choice error_types tape = Inr (error_type, t1)"
    and "apply_edit error_type word severity t1 = Inr (word', t2)"
  shows "(severity = 3 \<longrightarrow> (\<forall>u t3. random_unit t2 = Inr (u, t3) \<longrightarrow>
            introduce_error word severity tape =
              (if u < 1 / 2 then introduce_error word' severity t3 else Inr (word', t3)))) \<and>
         (severity = 2 \<longrightarrow> (\<forall>u t3. random_unit t2 = Inr (u, t3) \<longrightarrow>
            introduce_error word severity tape =
              (if u < 1 / 5 then introduce_error word' severity t3 else Inr (word', t3)))) \<and>
         (severity \<noteq> 2 \<and> severity \<noteq> 3 \<longrightarrow>
            introduce_error word severity tape = Inr (word', t2)) \<and>
         (\<forall>u t3. random_unit t2 = Inr (u, t3) \<longrightarrow>
            0 \<le> u \<and> u < 1 \<and> (\<exists>d. t2 = d # t3))"
proof -
  from assms(2) obtain d where tape: "tape = d # t1"
    and kind: "error_type = error_types ! (d mod 5)"
    by (auto simp: choice_error_type split: list.splits)
  have step: "introduce_error word severity tape =
      (case compound severity t2 of
         Inl e \<Rightarrow> Inl e
       | Inr (again, t3) \<Rightarrow>
           if again then introduce_error word' severity t3 else Inr (word', t3))"
    using assms(1,3) by (simp add: tape kind introduce_error_Cons)
  have severe: "introduce_error word severity tape =
      (if u < 1 / 2 then introduce_error word' severity t3 else Inr (word', t3))"
    if "severity = 3" "random_unit t2 = Inr (u, t3)" for u t3
    unfolding step using that by (simp add: compound_def)
  have moderate: "introduce_error word severity tape =
      (if u < 1 / 5 then introduce_error word' severity t3 else Inr (word', t3))"
    if "severity = 2" "random_unit t2 = Inr (u, t3)" for u t3
    unfolding step using that by (simp add: compound_def)
  have light: "introduce_error word severity tape = Inr (word', t2)"
    if "severity \<noteq> 2 \<and> severity \<noteq> 3"
    unfolding step using that by (simp add: compound_light)
  from severe moderate light random_unit_Inr show ?thesis
    by blast
qed

theorem compounding_by_fresh_draw_witness:
  "2 \<le> length ''ab'' \<and>
   choice error_types [2, 0, 0] = Inr (Omission, [0, 0]) \<and>
   apply_edit Omission ''ab'' 3 [0, 0] = Inr (''b'', [0]) \<and>
   random_unit [0] = Inr (0, []) \<and>
   introduce_error ''ab'' 3 [2, 0, 0] = Inr (''b'', [])"
proof -
  have l: "2 \<le> length ''ab''" by simp
  have c: "choice error_types [2, 0, 0] = Inr (Omission, [0, 0])"
    by (simp add: choice_def error_types_def)
  have e: "apply_edit Omission ''ab'' 3 [0, 0] = Inr (''b'', [0])"
    by (simp add: apply_edit_Omission)
  have r: "random_unit [0] = Inr (0, [])"
    by (simp add: random_unit_def)
  have "introduce_error ''b'' 3 [] = Inr (''b'', [])"
    by (simp add: introduce_error.simps)
  with compounding_by_fresh_draw [OF l c e] r
  have "introduce_error ''ab'' 3 [2, 0, 0] = Inr (''b'', [])"
    by simp
  with l c e r show ?thesis by simp
qed

section \<open>The corruptor: a text and a frame\<close>

lemma randint_neg [simp]: "b < 0 \<Longrightarrow> randint 0 b tape = Inl ValueError"
  by (simp add: randint_def)

lemma num_words_to_modify_pos:
  "num_words_to_modify n degree = Inr k \<Longrightarrow> 0 < k"
  by (auto simp: num_words_to_modify_def split: if_splits)

lemma num_words_to_modify_degree:
  "num_words_to_modify n degree =
     (if degree \<in> {1, 2, 3}
      then Inr (max 1 (n div (if degree = 1 then 50 else if degree = 2 then 10 else 5)))
      else Inl UnboundLocalError)"
  by (simp add: num_words_to_modify_def)

lemma modify_words_Nil:
  "0 < n \<Longrightarrow> modify_words n [] degree tape = Inl ValueError"
  by (cases n) simp_all

lemma modify_words_Suc:
  "words \<noteq> [] \<Longrightarrow> modify_words (Suc n) words degree tape =
     (case tape of
        [] \<Rightarrow> Inl OutOfDraws
      | d # t1 \<Rightarrow>
          (case introduce_error (words ! (d mod length words)) degree t1 of
             Inl e \<Rightarrow> Inl e
           | Inr (w, t2) \<Rightarrow> modify_words n (words[d mod length words := w]) degree t2))"
  by (simp add: randint_index split: list.splits)

declare modify_words.simps(2) [simp del]

lemma modify_words_Inl:
  "modify_words n words degree tape = Inl e \<Longrightarrow>
     e = OutOfDraws \<or> (e = ValueError \<and> words = [])"
proof (induction n arbitrary: words tape)
  case 0
  then show ?case by simp
next
  case (Suc n)
  show ?case
  proof (cases "words = []")
    case True
    with Suc.prems show ?thesis by (simp add: modify_words_Nil)
  next
    case False
    show ?thesis
    proof (cases tape)
      case Nil
      with Suc.prems False show ?thesis by (simp add: modify_words_Suc)
    next
      case (Cons d t1)
      let ?i = "d mod length words"
      show ?thesis
      proof (cases "introduce_error (words ! ?i) degree t1")
        case (Inl e')
        with Suc.prems False Cons have "e = e'" by (simp add: modify_words_Suc)
        with introduce_error_Inl [OF Inl] show ?thesis by simp
      next
        case (Inr r)
        obtain w t2 where r: "r = (w, t2)" by (cases r)
        from Suc.prems False Cons Inr r
        have "modify_words n (words[?i := w]) degree t2 = Inl e"
          by (simp add: modify_words_Suc)
        from Suc.IH [OF this] False show ?thesis by simp
      qed
    qed
  qed
qed

lemma add_errors_no_words:
  "str_split text = [] \<Longrightarrow> add_errors_to_text text degree tape =
     (if degree \<in> {1, 2, 3} then Inl ValueError else Inl UnboundLocalError)"
  by (simp add: add_errors_to_text_def num_words_to_modify_degree modify_words_Nil)

lemma add_errors_Inl:
  "degree \<in> {1, 2, 3} \<Longrightarrow> add_errors_to_text text degree tape = Inl e \<Longrightarrow>
     e = OutOfDraws \<or> (e = ValueError \<and> str_split text = [])"
  by (auto simp: add_errors_to_text_def num_words_to_modify_degree
           split: sum.splits dest: modify_words_Inl)

lemma inject_wordless:
  "r \<in> set df \<Longrightarrow> str_split (text_col r) = [] \<Longrightarrow>
     \<exists>e. inject_spelling_errors df degree tape = Inl e"
proof (induction df arbitrary: tape)
  case Nil
  then show ?case by simp
next
  case (Cons row rows)
  show ?case
  proof (cases "add_errors_to_text (text_col row) degree tape")
    case (Inl e)
    then show ?thesis by simp
  next
    case (Inr p)
    obtain x t1 where p: "p = (x, t1)" by (cases p)
    from Inr Cons.prems(2) have "row \<noteq> r"
      by (auto simp: add_errors_no_words split: if_splits)
    with Cons.prems(1) have "r \<in> set rows" by simp
    from Cons.IH [OF this Cons.prems(2)] obtain e
      where "inject_spelling_errors rows degree t1 = Inl e" by blast
    with Inr p show ?thesis by simp
  qed
qed

lemma inject_Inl:
  "degree \<in> {1, 2, 3} \<Longrightarrow> inject_spelling_errors df degree tape = Inl e \<Longrightarrow>
     e = OutOfDraws \<or> e = ValueError"
proof (induction df arbitrary: tape)
  case Nil
  then show ?case by simp
next
  case (Cons row rows)
  show ?case
  proof (cases "add_errors_to_text (text_col row) degree tape")
    case (Inl e')
    with Cons.prems(2) have "e = e'" by simp
    with add_errors_Inl [OF Cons.prems(1) Inl] show ?thesis by blast
  next
    case (Inr p)
    obtain x t1 where p: "p = (x, t1)" by (cases p)
    from Cons.prems(2) Inr p have "inject_spelling_errors rows degree t1 = Inl e"
      by (auto split: sum.splits prod.splits)
    from Cons.IH [OF Cons.prems(1) this] show ?thesis .
  qed
qed

lemma inject_append:
  "inject_spelling_errors (pre @ post) degree tape =
     (case inject_spelling_errors pre degree tape of
        Inl e \<Rightarrow> Inl e
      | Inr (pre', t1) \<Rightarrow>
          (case inject_spelling_errors post degree t1 of
             Inl e \<Rightarrow> Inl e
           | Inr (post', t2) \<Rightarrow> Inr (pre' @ post', t2)))"
  by (induction pre arbitrary: tape) (auto split: sum.splits prod.splits)

text \<open>
  C8. If the text of some row has no word, \<open>inject_spelling_errors\<close> returns no frame,
  whatever the draws. For a degree in 1, 2, 3 the wordless text asks \<open>randint\<close> for an
  index between 0 and -1, which raises ValueError before anything is drawn; whenever the
  rows before the wordless one are completed, the frame fails with that error, and in any
  case the failure is that error unless the draws supplied ran out in an earlier row.
\<close>

theorem empty_text_is_fatal:
  "r \<in> set df \<Longrightarrow> str_split (text_col r) = [] \<Longrightarrow>
     (\<exists>e. inject_spelling_errors df degree tape = Inl e) \<and>
     (degree \<in> {1, 2, 3} \<longrightarrow>
        randint 0 (int (length (str_split (text_col r))) - 1) tape' = Inl ValueError \<and>
        add_errors_to_text (text_col r) degree tape' = Inl ValueError \<and>
        (\<forall>pre' t1. inject_spelling_errors pre degree tape' = Inr (pre', t1)
           \<longrightarrow> inject_spelling_errors (pre @ r # rows) degree tape' = Inl ValueError) \<and>
        (\<forall>e. inject_spelling_errors df degree tape = Inl e
           \<longrightarrow> e = ValueError \<or> e = OutOfDraws))"
proof -
  assume r: "r \<in> set df" and none: "str_split (text_col r) = []"
  from inject_wordless [OF r none]
  have fails: "\<exists>e. inject_spelling_errors df degree tape = Inl e" .
  have valid: "randint 0 (int (length (str_split (text_col r))) - 1) tape' = Inl ValueError \<and>
        add_errors_to_text (text_col r) degree tape' = Inl ValueError \<and>
        (\<forall>pre' t1. inject_spelling_errors pre degree tape' = Inr (pre', t1)
           \<longrightarrow> inject_spelling_errors (pre @ r # rows) degree tape' = Inl ValueError) \<and>
        (\<forall>e. inject_spelling_errors df degree tape = Inl e
           \<longrightarrow> e = ValueError \<or> e = OutOfDraws)"
    if d: "degree \<in> {1, 2, 3}"
  proof (intro conjI allI impI)
    show "randint 0 (int (length (str_split (text_col r))) - 1) tape' = Inl ValueError"
      by (simp add: none)
    from d show "add_errors_to_text (text_col r) degree tape' = Inl ValueError"
      by (simp add: add_errors_no_words [OF none])
  next
    fix pre' t1
    assume "inject_spelling_errors pre degree tape' = Inr (pre', t1)"
    moreover from d have "add_errors_to_text (text_col r) degree t1 = Inl ValueError"
      by (simp add: add_errors_no_words [OF none])
    ultimately show "inject_spelling_errors (pre @ r # rows) degree tape' = Inl ValueError"
      by (simp add: inject_append)
  next
    fix e assume "inject_spelling_errors df degree tape = Inl e"
    from inject_Inl [OF d this] show "e = ValueError \<or> e = OutOfDraws" by blast
  qed
  from fails valid show ?thesis by blast
qed

theorem empty_text_is_fatal_witness:
  "\<lparr>id_col = 7, text_col = ''  '', sentiment_col = ''positive''\<rparr>
      \<in> set [\<lparr>id_col = 7, text_col = ''  '', sentiment_col = ''positive''\<rparr>] \<and>
   str_split ''  '' = [] \<and>
   inject_spelling_errors [\<lparr>id_col = 7, text_col = ''  '', sentiment_col = ''positive''\<rparr>]
      1 [0, 1, 2] = Inl ValueError"
proof -
  let ?r = "\<lparr>id_col = 7, text_col = ''  '', sentiment_col = ''positive''\<rparr>"
  have m: "?r \<in> set [?r]" by simp
  have s: "str_split (text_col ?r) = []" by (simp add: str_split.simps isspace_def)
  have "inject_spelling_errors [] 1 [0, 1, 2] = Inr ([], [0, 1, 2])" by simp
  with empty_text_is_fatal [OF m s, of 1 "[0, 1, 2]" "[0, 1, 2]" "[]" "[]"]
  have "inject_spelling_errors ([] @ [?r]) 1 [0, 1, 2] = Inl ValueError" by blast
  with m s show ?thesis by simp
qed

section \<open>Splitting and joining\<close>

lemma isspace_space: "isspace (CHR '' '')"
  by (simp add: isspace_def)

lemma str_split_Nil: "str_split [] = []"
  by (simp add: str_split.simps)

lemma str_split_space: "isspace c \<Longrightarrow> str_split (c # s) = str_split s"
  by (simp add: str_split.simps [of "c # s"] str_split.simps [of s])

lemma str_split_word_then_space:
  assumes "is_word w" "isspace c"
  shows "str_split (w @ c # s) = w # str_split s"
proof -
  from assms(1) obtain a w' where w: "w = a # w'" and a: "\<not> isspace a"
    and w': "\<forall>x \<in> set w'. \<not> isspace x"
    by (cases w) (auto simp: is_word_def)
  from w' assms(2) have "takeWhile (\<lambda>x. \<not> isspace x) (w' @ c # s) = w'"
    by (simp add: takeWhile_append2)
  moreover from w' assms(2) have "dropWhile (\<lambda>x. \<not> isspace x) (w' @ c # s) = c # s"
    by (simp add: dropWhile_append2)
  ultimately have "str_split (w @ c # s) = w # str_split (c # s)"
    using a by (simp add: w str_split.simps [of "a # w' @ c # s"])
  with assms(2) show ?thesis by (simp add: str_split_space)
qed

lemma str_split_word:
  assumes "is_word w"
  shows "str_split w = [w]"
proof -
  from assms obtain a w' where w: "w = a # w'" and a: "\<not> isspace a"
    and w': "\<forall>x \<in> set w'. \<not> isspace x"
    by (cases w) (auto simp: is_word_def)
  from w' have t: "takeWhile (\<lambda>x. \<not> isspace x) w' = w'"
    and d: "dropWhile (\<lambda>x. \<not> isspace x) w' = []"
    by simp_all
  from a show ?thesis
    by (simp add: w str_split.simps [of "a # w'"] t d str_split_Nil)
qed

text \<open>What \<^verbatim>\<open>split()\<close> yields are words.\<close>

lemma str_split_words: "w \<in> set (str_split s) \<Longrightarrow> is_word w"
proof (induction s arbitrary: w rule: str_split.induct)
  case (1 s)
  show ?case
  proof (cases "dropWhile isspace s")
    case Nil
    with "1.prems" show ?thesis by (simp add: str_split.simps [of s])
  next
    case (Cons c cs)
    then have "dropWhile isspace s \<noteq> []" by simp
    then have "\<not> isspace (hd (dropWhile isspace s))" by (rule hd_dropWhile)
    with Cons have c: "\<not> isspace c" by simp
    from "1.prems" Cons
    consider "w = takeWhile (\<lambda>x. \<not> isspace x) (c # cs)"
      | "w \<in> set (str_split (dropWhile (\<lambda>x. \<not> isspace x) cs))"
      by (auto simp: str_split.simps [of s])
    then show ?thesis
    proof cases
      case 1
      with c show ?thesis
        by (auto simp: is_word_def dest: set_takeWhileD)
    next
      case 2
      from "1.IH" [OF Cons this] show ?thesis .
    qed
  qed
qed

text \<open>Words joined by single spaces split into the same words.\<close>

lemma str_split_join: "\<forall>w \<in> set ws. is_word w \<Longrightarrow> str_split (str_join '' '' ws) = ws"
proof (induction ws)
  case Nil
  then show ?case by (simp add: str_split_Nil)
next
  case (Cons w ws)
  then have w: "is_word w" and ih: "str_split (str_join '' '' ws) = ws"
    by simp_all
  show ?case
  proof (cases ws)
    case Nil
    with w show ?thesis by (simp add: str_split_word)
  next
    case (Cons v vs)
    then have "str_join '' '' (w # ws) = w @ CHR '' '' # str_join '' '' ws"
      by simp
    with ih show ?thesis
      by (simp add: str_split_word_then_space [OF w isspace_space])
  qed
qed

section \<open>Positions that differ\<close>

lemma changed_refl: "changed ws ws = 0"
  by (induction ws) (simp_all add: changed_def)

lemma changed_update: "changed ws (ws[i := w]) \<le> 1"
proof (induction ws arbitrary: i)
  case Nil
  then show ?case by (simp add: changed_def)
next
  case (Cons a ws)
  show ?case
  proof (cases i)
    case 0
    with changed_refl [of ws] show ?thesis by (simp add: changed_def)
  next
    case (Suc j)
    with Cons.IH [of j] show ?thesis by (simp add: changed_def)
  qed
qed

lemma changed_triangle:
  "length xs = length ys \<Longrightarrow> length ys = length zs \<Longrightarrow>
     changed xs zs \<le> changed xs ys + changed ys zs"
  by (induction xs ys zs rule: list_induct3) (auto simp: changed_def)

section \<open>What corruption keeps\<close>

lemma modify_words_Inr:
  "\<forall>w \<in> set ws. is_word w \<Longrightarrow> modify_words n ws degree tape = Inr (ws', t') \<Longrightarrow>
     length ws' = length ws \<and> (\<forall>w \<in> set ws'. is_word w) \<and> changed ws ws' \<le> n
       \<and> length t' \<le> length tape"
proof (induction n arbitrary: ws tape)
  case 0
  then show ?case by (simp add: changed_refl)
next
  case (Suc n)
  from Suc.prems(2) have ne: "ws \<noteq> []"
    by (auto simp: modify_words_Nil)
  with Suc.prems(2) obtain d t1 where tape: "tape = d # t1"
    by (cases tape) (auto simp: modify_words_Suc)
  let ?i = "d mod length ws"
  from ne have i: "?i < length ws" by simp
  from Suc.prems(2) ne tape obtain w t2
    where ie: "introduce_error (ws ! ?i) degree t1 = Inr (w, t2)"
      and rest: "modify_words n (ws[?i := w]) degree t2 = Inr (ws', t')"
    by (auto simp: modify_words_Suc split: sum.splits prod.splits)
  from i Suc.prems(1) have "is_word (ws ! ?i)" by simp
  from introduce_error_word [OF this ie] have w: "is_word w" and t2: "length t2 \<le> length t1"
    by simp_all
  have "\<forall>v \<in> set (ws[?i := w]). is_word v"
    using Suc.prems(1) w by (auto dest: set_update_subset_insert [THEN subsetD])
  from Suc.IH [OF this rest]
  have len: "length ws' = length ws" and words: "\<forall>w \<in> set ws'. is_word w"
    and ch: "changed (ws[?i := w]) ws' \<le> n" and t': "length t' \<le> length t2"
    by simp_all
  have "changed ws ws' \<le> changed ws (ws[?i := w]) + changed (ws[?i := w]) ws'"
    using len by (intro changed_triangle) simp_all
  with changed_update [of ws ?i w] ch have "changed ws ws' \<le> Suc n" by simp
  with len words t' t2 tape show ?case by simp
qed

text \<open>
  A corrupted text has the words of the original, all but at most
  \<open>num_words_to_modify\<close> of them unchanged.
\<close>

lemma add_errors_Inr:
  assumes "add_errors_to_text text degree tape = Inr (text', t')"
  shows "str_split text \<noteq> [] \<and> degree \<in> {1, 2, 3}
       \<and> length (str_split text') = length (str_split text)
       \<and> (\<exists>n. num_words_to_modify (length (str_split text)) degree = Inr n
               \<and> changed (str_split text) (str_split text') \<le> n)
       \<and> length t' \<le> length tape"
proof -
  from assms obtain n ws'
    where n: "num_words_to_modify (length (str_split text)) degree = Inr n"
      and run: "modify_words n (str_split text) degree tape = Inr (ws', t')"
      and text': "text' = str_join '' '' ws'"
    by (auto simp: add_errors_to_text_def split: sum.splits prod.splits)
  from n have deg: "degree \<in> {1, 2, 3}"
    by (auto simp: num_words_to_modify_def split: if_splits)
  from n have "0 < n" by (rule num_words_to_modify_pos)
  with run have ne: "str_split text \<noteq> []"
    by (auto simp: modify_words_Nil)
  have "\<forall>w \<in> set (str_split text). is_word w"
    by (simp add: str_split_words)
  from modify_words_Inr [OF this run]
  have len: "length ws' = length (str_split text)" and words: "\<forall>w \<in> set ws'. is_word w"
    and ch: "changed (str_split text) ws' \<le> n" and t': "length t' \<le> length tape"
    by simp_all
  from words have "str_split text' = ws'"
    unfolding text' by (rule str_split_join)
  with ne deg len ch n t' show ?thesis by simp
qed

text \<open>Row by row: only the text is replaced, by a corruption of the row's own text.\<close>

lemma inject_Inr:
  "inject_spelling_errors df degree tape = Inr (df', t') \<Longrightarrow>
     list_all2 (\<lambda>row row'. row' = row\<lparr>text_col := text_col row'\<rparr> \<and>
        (\<exists>t1 t2. add_errors_to_text (text_col row) degree t1 = Inr (text_col row', t2)))
       df df'"
proof (induction df arbitrary: tape df')
  case Nil
  then show ?case by simp
next
  case (Cons row rows)
  from Cons.prems obtain x t1 rows'
    where a: "add_errors_to_text (text_col row) degree tape = Inr (x, t1)"
      and r: "inject_spelling_errors rows degree t1 = Inr (rows', t')"
      and d: "df' = row\<lparr>text_col := x\<rparr> # rows'"
    by (auto split: sum.splits prod.splits)
  from a have "\<exists>t1 t2. add_errors_to_text (text_col row) degree t1 = Inr (x, t2)"
    by blast
  with Cons.IH [OF r] d show ?case by simp
qed

section \<open>Light severity\<close>

text \<open>Below severity 3 an edit needs at most two draws, and a pass at most three.\<close>

lemma apply_edit_returns_two:
  assumes len: "2 \<le> length word" and sev: "severity \<noteq> 3" and draws: "2 \<le> length t"
  shows "\<exists>w' t'. apply_edit k word severity t = Inr (w', t')"
proof -
  from len have ne: "word \<noteq> []" by auto
  from draws obtain d c rest where t: "t = d # c # rest"
    by (cases t; cases "tl t") auto
  show ?thesis
  proof (cases k)
    case Substitution
    with ne t show ?thesis by (simp add: apply_edit_Substitution)
  next
    case Transposition
    with t show ?thesis by (simp add: apply_edit_Transposition)
  next
    case Omission
    with ne t show ?thesis by (simp add: apply_edit_Omission)
  next
    case Duplication
    with ne t show ?thesis by (simp add: apply_edit_Duplication)
  next
    case Scramble
    with sev show ?thesis by (simp add: apply_edit_Scramble)
  qed
qed

lemma introduce_error_light_returns:
  assumes sev: "severity \<noteq> 2" "severity \<noteq> 3" and draws: "3 \<le> length tape"
  shows "\<exists>w' t'. introduce_error word severity tape = Inr (w', t')"
proof (cases "length word < 2")
  case True
  then show ?thesis by (simp add: introduce_error.simps [of word])
next
  case False
  then have len: "2 \<le> length word" by simp
  from draws obtain d t1 where tape: "tape = d # t1" and t1: "2 \<le> length t1"
    by (cases tape) auto
  from apply_edit_returns_two [OF len sev(2) t1] obtain w' t'
    where "apply_edit (error_types ! (d mod 5)) word severity t1 = Inr (w', t')"
    by blast
  with len sev tape show ?thesis
    by (simp add: introduce_error_Cons compound_light)
qed

lemma modify_words_once_light:
  assumes "ws \<noteq> []" "4 \<le> length tape"
  shows "\<exists>ws' t'. modify_words (Suc 0) ws 1 tape = Inr (ws', t')"
proof -
  from assms(2) obtain d t1 where tape: "tape = d # t1" and t1: "3 \<le> length t1"
    by (cases tape) auto
  from introduce_error_light_returns [OF _ _ t1, of 1 "ws ! (d mod length ws)"]
  obtain w t2 where "introduce_error (ws ! (d mod length ws)) 1 t1 = Inr (w, t2)"
    by auto
  with assms(1) tape show ?thesis
    by (simp add: modify_words_Suc)
qed

lemma fox_words:
  "str_split ''the quick brown fox jumps over the lazy dog'' =
     [''the'', ''quick'', ''brown'', ''fox'', ''jumps'', ''over'', ''the'', ''lazy'', ''dog'']"
  by (simp add: str_split.simps isspace_def)

lemma fox_target:
  "num_words_to_modify
      (length (str_split ''the quick brown fox jumps over the lazy dog'')) 1 = Inr (Suc 0)"
  by (simp add: fox_words num_words_to_modify_def)

lemma modify_words_once:
  assumes "ws \<noteq> []" "modify_words (Suc 0) ws degree tape = Inr (ws', t')"
  shows "\<exists>d0 t1 w'. tape = d0 # t1
           \<and> introduce_error (ws ! (d0 mod length ws)) degree t1 = Inr (w', t')
           \<and> ws' = ws[d0 mod length ws := w']"
proof -
  from assms obtain d0 t1 where tape: "tape = d0 # t1"
    by (cases tape) (auto simp: modify_words_Suc)
  with assms obtain w' t2
    where "introduce_error (ws ! (d0 mod length ws)) degree t1 = Inr (w', t2)"
      and "modify_words 0 (ws[d0 mod length ws := w']) degree t2 = Inr (ws', t')"
    by (auto simp: modify_words_Suc split: sum.splits prod.splits)
  with tape show ?thesis by auto
qed

lemma changed_update_eq:
  "i < length ws \<Longrightarrow> changed ws (ws[i := w]) = (if w = ws ! i then 0 else 1)"
proof (induction ws arbitrary: i)
  case Nil
  then show ?case by simp
next
  case (Cons a ws)
  show ?case
  proof (cases i)
    case 0
    with changed_refl [of ws] show ?thesis by (auto simp: changed_def)
  next
    case (Suc j)
    with Cons.prems Cons.IH [of j] show ?thesis by (simp add: changed_def)
  qed
qed

text \<open>
  One pass at severity 1 on a word of three characters or more with no letter doubled:
  the word comes back unchanged exactly when the drawn kind is scramble, or when it is
  substitution and the drawn letter is the one at the drawn position.
\<close>

lemma light_pass_unchanged:
  assumes len: "2 < length w" and adj: "distinct_adj w"
    and run: "introduce_error w 1 (d1 # rest) = Inr (w', t')"
  shows "w' = w \<longleftrightarrow>
           error_types ! (d1 mod 5) = Scramble \<or>
           (error_types ! (d1 mod 5) = Substitution \<and>
            (\<exists>d2 d3 r. rest = d2 # d3 # r \<and>
               ''abcdefghijklmnopqrstuvwxyz'' ! (d3 mod 26) = w ! (d2 mod length w)))"
proof -
  let ?k = "error_types ! (d1 mod 5)"
  from len have ne: "w \<noteq> []" and two: "2 \<le> length w" by auto
  from run two have ed: "apply_edit ?k w 1 rest = Inr (w', t')"
    by (auto simp: introduce_error_Cons compound_light split: sum.splits prod.splits)
  show ?thesis
  proof (cases ?k)
    case Substitution
    with ed ne obtain d2 d3 r where rest: "rest = d2 # d3 # r"
      and w': "w' = take (d2 mod length w) w @ [''abcdefghijklmnopqrstuvwxyz'' ! (d3 mod 26)]
                 @ drop (d2 mod length w + 1) w"
      by (auto simp: apply_edit_Substitution split: list.splits)
    from ne have i: "d2 mod length w < length w" by simp
    from w' i have "w' = w[d2 mod length w := ''abcdefghijklmnopqrstuvwxyz'' ! (d3 mod 26)]"
      by (simp add: upd_conv_take_nth_drop)
    with i have "w' = w \<longleftrightarrow> w ! (d2 mod length w) = ''abcdefghijklmnopqrstuvwxyz'' ! (d3 mod 26)"
      by (simp add: list_update_same_conv)
    with Substitution rest show ?thesis by auto
  next
    case Transposition
    let ?n = "length w - 1"
    from ed Transposition len obtain d where
      w': "w' = take (d mod ?n) w @ [w ! (d mod ?n + 1)] @ [w ! (d mod ?n)]
                @ drop (d mod ?n + 2) w"
      by (auto simp: apply_edit_Transposition split: list.splits)
    from len have i: "Suc (d mod ?n) < length w"
      using mod_less_divisor [of ?n d] by linarith
    then have "length (take (d mod ?n) w) = d mod ?n" by simp
    then have "w' ! (d mod ?n) = w ! (d mod ?n + 1)"
      unfolding w' by (metis append_Cons nth_append_length)
    moreover from adj i have "w ! (d mod ?n) \<noteq> w ! Suc (d mod ?n)"
      by (simp add: distinct_adj_conv_nth)
    ultimately have "w' \<noteq> w" by auto
    with Transposition show ?thesis by simp
  next
    case Omission
    with ed ne obtain d where
      "w' = take (d mod length w) w @ drop (d mod length w + 1) w"
      by (auto simp: apply_edit_Omission split: list.splits)
    moreover from ne have "d mod length w < length w" by simp
    ultimately have "length w' \<noteq> length w" by simp
    then have "w' \<noteq> w" by auto
    with Omission show ?thesis by simp
  next
    case Duplication
    with ed ne obtain d where
      "w' = take (d mod length w) w @ [w ! (d mod length w), w ! (d mod length w)]
              @ drop (d mod length w + 1) w"
      by (auto simp: apply_edit_Duplication split: list.splits)
    moreover from ne have "d mod length w < length w" by simp
    ultimately have "length w' \<noteq> length w" by simp
    then have "w' \<noteq> w" by auto
    with Duplication show ?thesis by simp
  next
    case Scramble
    with ed show ?thesis by (simp add: apply_edit_Scramble)
  qed
qed

lemma fox_words_shape:
  "\<forall>w \<in> set (str_split ''the quick brown fox jumps over the lazy dog'').
     2 < length w \<and> distinct_adj w"
  by (simp add: fox_words)

text \<open>
  C6. For the text \<open>the quick brown fox jumps over the lazy dog\<close> at degree 1 the
  target count is \<open>max 1 (9 div 50) = 1\<close>. With four draws or more on the tape the
  corruption returns, whatever the draws are. Whenever it returns, the first draw has
  chosen one of the nine positions, \<open>introduce_error\<close> has been run once on the word
  there, and the result is the text with that word replaced: nine words, of which
  exactly one differs from the input, unless the drawn kind is scramble, or is
  substitution with the drawn letter equal to the letter at the drawn position; then
  none differs.
\<close>

theorem fox_light_one_attempt:
  "num_words_to_modify
      (length (str_split ''the quick brown fox jumps over the lazy dog'')) 1 = Inr 1 \<and>
   (4 \<le> length tape \<longrightarrow>
      (\<exists>text' tape'.
         add_errors_to_text ''the quick brown fox jumps over the lazy dog'' 1 tape
           = Inr (text', tape'))) \<and>
   (\<forall>text' tape'.
      add_errors_to_text ''the quick brown fox jumps over the lazy dog'' 1 tape
        = Inr (text', tape')
      \<longrightarrow> (\<exists>d0 d1 rest w'.
            tape = d0 # d1 # rest \<and>
            introduce_error
              (str_split ''the quick brown fox jumps over the lazy dog'' ! (d0 mod 9)) 1
              (d1 # rest) = Inr (w', tape') \<and>
            str_split text' =
              (str_split ''the quick brown fox jumps over the lazy dog'')[d0 mod 9 := w'] \<and>
            length (str_split text') = 9 \<and>
            changed (str_split ''the quick brown fox jumps over the lazy dog'')
              (str_split text') =
              (if error_types ! (d1 mod 5) = Scramble \<or>
                  (error_types ! (d1 mod 5) = Substitution \<and>
                   (\<exists>d2 d3 r. rest = d2 # d3 # r \<and>
                      ''abcdefghijklmnopqrstuvwxyz'' ! (d3 mod 26) =
                        str_split ''the quick brown fox jumps over the lazy dog''
                          ! (d0 mod 9)
                          ! (d2 mod length
                               (str_split ''the quick brown fox jumps over the lazy dog''
                                  ! (d0 mod 9)))))
               then 0 else 1)))"
proof (intro conjI impI allI)
  let ?fox = "''the quick brown fox jumps over the lazy dog''"
  let ?ws = "str_split ?fox"
  have nine: "length ?ws = 9" by (simp add: fox_words)
  show n: "num_words_to_modify (length ?ws) 1 = Inr 1"
    using fox_target by simp
  {
    assume "4 \<le> length tape"
    then have "\<exists>ws' t'. modify_words (Suc 0) ?ws 1 tape = Inr (ws', t')"
      by (intro modify_words_once_light) (simp_all add: fox_words)
    with n show "\<exists>text' tape'. add_errors_to_text ?fox 1 tape = Inr (text', tape')"
      by (auto simp: add_errors_to_text_def)
  }
  fix text' tape'
  assume run: "add_errors_to_text ?fox 1 tape = Inr (text', tape')"
  with n obtain ws' where loop: "modify_words (Suc 0) ?ws 1 tape = Inr (ws', tape')"
    and text': "text' = str_join '' '' ws'"
    by (auto simp: add_errors_to_text_def split: sum.splits prod.splits)
  from nine have ne: "?ws \<noteq> []" by auto
  from modify_words_once [OF ne loop] nine obtain d0 t1 w'
    where tape: "tape = d0 # t1"
      and pass: "introduce_error (?ws ! (d0 mod 9)) 1 t1 = Inr (w', tape')"
      and ws': "ws' = ?ws[d0 mod 9 := w']"
    by auto
  let ?w = "?ws ! (d0 mod 9)"
  from nine have i: "d0 mod 9 < length ?ws" by simp
  then have "?w \<in> set ?ws" by (rule nth_mem)
  with fox_words_shape have len: "2 < length ?w" and adj: "distinct_adj ?w"
    by blast+
  from pass len obtain d1 rest where t1: "t1 = d1 # rest"
    by (cases t1) (auto simp: introduce_error_Nil)
  have "\<forall>w \<in> set ?ws. is_word w" by (simp add: str_split_words)
  from modify_words_Inr [OF this loop] have "\<forall>w \<in> set ws'. is_word w" by simp
  then have split: "str_split text' = ws'"
    unfolding text' by (rule str_split_join)
  from i have "changed ?ws (?ws[d0 mod 9 := w']) = (if w' = ?w then 0 else 1)"
    by (rule changed_update_eq)
  moreover note light_pass_unchanged [OF len adj pass [unfolded t1]]
  ultimately have ch: "changed ?ws (str_split text') =
      (if error_types ! (d1 mod 5) = Scramble \<or>
          (error_types ! (d1 mod 5) = Substitution \<and>
           (\<exists>d2 d3 r. rest = d2 # d3 # r \<and>
              ''abcdefghijklmnopqrstuvwxyz'' ! (d3 mod 26) = ?w ! (d2 mod length ?w)))
       then 0 else 1)"
    unfolding split ws' by simp
  from split ws' nine have "length (str_split text') = 9" by simp
  with tape t1 pass split ws' ch
  show "\<exists>d0 d1 rest w'.
            tape = d0 # d1 # rest \<and>
            introduce_error (?ws ! (d0 mod 9)) 1 (d1 # rest) = Inr (w', tape') \<and>
            str_split text' = ?ws[d0 mod 9 := w'] \<and>
            length (str_split text') = 9 \<and>
            changed ?ws (str_split text') =
              (if error_types ! (d1 mod 5) = Scramble \<or>
                  (error_types ! (d1 mod 5) = Substitution \<and>
                   (\<exists>d2 d3 r. rest = d2 # d3 # r \<and>
                      ''abcdefghijklmnopqrstuvwxyz'' ! (d3 mod 26) =
                        ?ws ! (d0 mod 9) ! (d2 mod length (?ws ! (d0 mod 9)))))
               then 0 else 1)"
    by blast
qed

text \<open>
  Two outcomes in which no word differs: the drawn kind is scramble, a no-op at this
  severity; and the drawn kind is substitution, of the \<open>t\<close> of \<open>the\<close> by the letter \<open>t\<close>.
\<close>

theorem fox_light_no_word_modified_counterexample:
  "add_errors_to_text ''the quick brown fox jumps over the lazy dog'' 1 [0, 4]
     = Inr (''the quick brown fox jumps over the lazy dog'', []) \<and>
   add_errors_to_text ''the quick brown fox jumps over the lazy dog'' 1 [0, 0, 0, 19]
     = Inr (''the quick brown fox jumps over the lazy dog'', []) \<and>
   changed (str_split ''the quick brown fox jumps over the lazy dog'')
      (str_split ''the quick brown fox jumps over the lazy dog'') \<noteq> 1"
proof -
  note n = fox_target
  have a: "introduce_error ''the'' 1 [4] = Inr (''the'', [])"
    by (simp add: introduce_error_Cons error_types_def apply_edit_Scramble compound_light)
  have b: "introduce_error ''the'' 1 [0, 0, 19] = Inr (''the'', [])"
    by (simp add: introduce_error_Cons error_types_def apply_edit_Substitution compound_light)
  from n a have "add_errors_to_text ''the quick brown fox jumps over the lazy dog'' 1 [0, 4]
     = Inr (''the quick brown fox jumps over the lazy dog'', [])"
    by (simp add: add_errors_to_text_def fox_words modify_words_Suc)
  moreover from n b
  have "add_errors_to_text ''the quick brown fox jumps over the lazy dog'' 1 [0, 0, 0, 19]
     = Inr (''the quick brown fox jumps over the lazy dog'', [])"
    by (simp add: add_errors_to_text_def fox_words modify_words_Suc)
  ultimately show ?thesis
    by (simp add: changed_refl)
qed

theorem fox_light_one_attempt_witness:
  "4 \<le> length [3, 2, 1, 0 :: nat] \<and>
   add_errors_to_text ''the quick brown fox jumps over the lazy dog'' 1 [3, 2, 1, 0]
     = Inr (''the quick brown fx jumps over the lazy dog'', [0]) \<and>
   str_split ''the quick brown fox jumps over the lazy dog'' ! (3 mod 9) = ''fox'' \<and>
   error_types ! (2 mod 5) = Omission \<and>
   introduce_error ''fox'' 1 [2, 1, 0] = Inr (''fx'', [0]) \<and>
   length (str_split ''the quick brown fx jumps over the lazy dog'') = 9 \<and>
   changed (str_split ''the quick brown fox jumps over the lazy dog'')
     (str_split ''the quick brown fx jumps over the lazy dog'') = 1"
proof -
  note n = fox_target
  have a: "introduce_error ''fox'' 1 [2, 1, 0] = Inr (''fx'', [0])"
    by (simp add: introduce_error_Cons error_types_def apply_edit_Omission compound_light)
  from n a have run: "add_errors_to_text ''the quick brown fox jumps over the lazy dog'' 1
      [3, 2, 1, 0] = Inr (''the quick brown fx jumps over the lazy dog'', [0])"
    by (simp add: add_errors_to_text_def fox_words modify_words_Suc)
  have k: "error_types ! (2 mod 5) = Omission" by (simp add: error_types_def)
  have w: "str_split ''the quick brown fox jumps over the lazy dog'' ! (3 mod 9) = ''fox''"
    by (simp add: fox_words)
  from fox_light_one_attempt [of "[3, 2, 1, 0]"] run
  obtain d0 d1 rest w' where "[3, 2, 1, 0] = d0 # d1 # rest"
    and "length (str_split ''the quick brown fx jumps over the lazy dog'') = 9"
    and "changed (str_split ''the quick brown fox jumps over the lazy dog'')
           (str_split ''the quick brown fx jumps over the lazy dog'') =
         (if error_types ! (d1 mod 5) = Scramble \<or>
             (error_types ! (d1 mod 5) = Substitution \<and>
              (\<exists>d2 d3 r. rest = d2 # d3 # r \<and>
                 ''abcdefghijklmnopqrstuvwxyz'' ! (d3 mod 26) =
                   str_split ''the quick brown fox jumps over the lazy dog'' ! (d0 mod 9)
                     ! (d2 mod length
                          (str_split ''the quick brown fox jumps over the lazy dog''
                             ! (d0 mod 9)))))
          then 0 else 1)"
    by blast
  with k have "length (str_split ''the quick brown fx jumps over the lazy dog'') = 9"
    and "changed (str_split ''the quick brown fox jumps over the lazy dog'')
           (str_split ''the quick brown fx jumps over the lazy dog'') = 1"
    by auto
  with run a k w show ?thesis by simp
qed

section \<open>Corruption returns\<close>

lemma compound_returns:
  assumes "severity = 1 \<or> no_compounding t" "t \<noteq> []"
  shows "\<exists>used t'. compound severity t = Inr (False, t') \<and> t = used @ t' \<and> length used \<le> 1"
proof (cases "severity = 2 \<or> severity = 3")
  case False
  then have "compound severity t = Inr (False, t)" by (simp add: compound_light)
  then have "compound severity t = Inr (False, t) \<and> t = [] @ t \<and> length ([] :: tape) \<le> 1"
    by simp
  then show ?thesis by blast
next
  case True
  with assms(1) have calm: "no_compounding t" by auto
  from assms(2) obtain d t' where t: "t = d # t'" by (cases t) auto
  with calm have "(1 / 2 :: rat) \<le> of_nat (d mod 2 ^ 53) / 2 ^ 53"
    by (simp add: no_compounding_def)
  then have "\<not> of_nat (d mod 2 ^ 53) / 2 ^ 53 < (1 / 2 :: rat)"
    and "\<not> of_nat (d mod 2 ^ 53) / 2 ^ 53 < (1 / 5 :: rat)"
    by linarith+
  with True t have "compound severity t = Inr (False, t')"
    by (auto simp: compound_def random_unit_def)
  with t have "compound severity t = Inr (False, t') \<and> t = [d] @ t' \<and> length [d] \<le> 1"
    by simp
  then show ?thesis by blast
qed

lemma sample_pool_suffix:
  "sample_pool pool k tape = Inr (res, tape') \<Longrightarrow> \<exists>used. tape = used @ tape'"
proof (induction pool k tape arbitrary: res rule: sample_pool.induct)
  case (1 pool k)
  then show ?case by (simp split: if_splits)
next
  case (2 pool k d rest)
  show ?case
  proof (cases "k = 0")
    case True
    with "2.prems" show ?thesis by simp
  next
    case False
    with "2.prems" obtain result
      where "sample_pool (butlast (pool[d mod length pool := last pool])) (k - 1) rest
               = Inr (result, tape')"
      by (auto simp: Let_def split: sum.splits prod.splits)
    from "2.IH" [OF False refl this] obtain used where "rest = used @ tape'" by blast
    then have "d # rest = (d # used) @ tape'" by simp
    then show ?thesis by blast
  qed
qed

lemma apply_edit_suffix:
  assumes len: "2 \<le> length word"
    and run: "apply_edit k word severity t = Inr (w', t')"
  shows "\<exists>used. t = used @ t' \<and> length used \<le> length word"
proof -
  from len have ne: "word \<noteq> []" by auto
  have "\<exists>used. t = used @ t'"
  proof (cases k)
    case Substitution
    with run ne obtain d c where "t = [d, c] @ t'"
      by (auto simp: apply_edit_Substitution split: list.splits)
    then show ?thesis by blast
  next
    case Transposition
    with run consider "t = t'" | d where "t = [d] @ t'"
      by (auto simp: apply_edit_Transposition split: list.splits if_splits)
    then show ?thesis by cases (auto intro: exI [of _ "[]"])
  next
    case Omission
    with run ne obtain d where "t = [d] @ t'"
      by (auto simp: apply_edit_Omission split: list.splits)
    then show ?thesis by blast
  next
    case Duplication
    with run ne obtain d where "t = [d] @ t'"
      by (auto simp: apply_edit_Duplication split: list.splits)
    then show ?thesis by blast
  next
    case Scramble
    with run show ?thesis
      by (auto simp: apply_edit_Scramble split: if_splits
               dest: sample_pool_suffix intro: exI [of _ "[]"])
  qed
  then obtain used where u: "t = used @ t'" by blast
  with apply_edit_size [OF len run] have "length used \<le> length word" by simp
  with u show ?thesis by blast
qed

text \<open>
  One call of \<open>introduce_error\<close> on a tape that does not compound: it returns after one
  pass, having read at most \<open>length word + 2\<close> draws.
\<close>

lemma introduce_error_returns:
  assumes quiet: "severity = 1 \<or> no_compounding tape"
    and draws: "length word + 2 \<le> length tape"
  shows "\<exists>w' t' used. introduce_error word severity tape = Inr (w', t') \<and> tape = used @ t'
           \<and> length used \<le> length word + 2 \<and> length w' \<le> length word + 1"
proof (cases "length word < 2")
  case True
  then have "introduce_error word severity tape = Inr (word, tape) \<and> tape = [] @ tape
      \<and> length ([] :: tape) \<le> length word + 2 \<and> length word \<le> length word + 1"
    by (simp add: introduce_error.simps [of word])
  then show ?thesis by blast
next
  case False
  then have len: "2 \<le> length word" by simp
  from draws obtain d t1 where tape: "tape = d # t1" by (cases tape) auto
  with draws have "length word \<le> length t1" by simp
  from apply_edit_returns [OF len this] obtain w' t2
    where ed: "apply_edit (error_types ! (d mod 5)) word severity t1 = Inr (w', t2)"
    by blast
  from apply_edit_suffix [OF len ed] obtain u1
    where u1: "t1 = u1 @ t2" "length u1 \<le> length word" by blast
  from apply_edit_size [OF len ed] have w': "length w' \<le> length word + 1" by simp
  from u1 draws tape have "t2 \<noteq> []" by auto
  moreover from quiet tape u1 have "severity = 1 \<or> no_compounding t2"
    by (auto simp: no_compounding_def)
  ultimately obtain u2 t3
    where co: "compound severity t2 = Inr (False, t3)" and u2: "t2 = u2 @ t3" "length u2 \<le> 1"
    using compound_returns by blast
  from len tape ed co have "introduce_error word severity tape = Inr (w', t3)"
    by (simp add: introduce_error_Cons)
  moreover from tape u1 u2 have "tape = (d # u1 @ u2) @ t3" by simp
  moreover from u1 u2 have "length (d # u1 @ u2) \<le> length word + 2" by simp
  ultimately show ?thesis using w' by blast
qed

lemma chars_update:
  assumes "i < length ws" "length w \<le> length (ws ! i) + 1"
  shows "sum_list (map length (ws[i := w])) \<le> sum_list (map length ws) + 1"
  using assms
proof (induction ws arbitrary: i)
  case Nil
  then show ?case by simp
next
  case (Cons a ws)
  show ?case
  proof (cases i)
    case 0
    with Cons.prems show ?thesis by simp
  next
    case (Suc j)
    with Cons.prems Cons.IH [of j] show ?thesis by simp
  qed
qed

lemma chars_nth: "i < length ws \<Longrightarrow> length (ws ! i) \<le> sum_list (map length ws)"
proof (induction ws arbitrary: i)
  case Nil
  then show ?case by simp
next
  case (Cons a ws)
  show ?case
  proof (cases i)
    case 0
    then show ?thesis by simp
  next
    case (Suc j)
    with Cons.prems Cons.IH [of j] show ?thesis by simp
  qed
qed

text \<open>
  The loop over \<open>n\<close> positions on a tape that does not compound. A word grows by at most
  one character in an iteration, so \<open>n * (chars + n + 3)\<close> draws are enough, \<open>chars\<close>
  being the characters of all the words.
\<close>

lemma modify_words_returns:
  assumes "degree = 1 \<or> no_compounding tape" "ws \<noteq> []"
    and "n * (sum_list (map length ws) + n + 3) \<le> length tape"
  shows "\<exists>ws' t' used. modify_words n ws degree tape = Inr (ws', t') \<and> tape = used @ t'
           \<and> length used \<le> n * (sum_list (map length ws) + n + 3)"
  using assms
proof (induction n arbitrary: ws tape)
  case 0
  have "modify_words 0 ws degree tape = Inr (ws, tape) \<and> tape = [] @ tape" by simp
  then show ?case by auto
next
  case (Suc n)
  let ?c = "sum_list (map length ws)"
  have expand: "Suc n * (?c + Suc n + 3) = n * (?c + 1 + n + 3) + (?c + n + 4)"
    by (simp add: algebra_simps)
  from Suc.prems(3) expand have tl: "n * (?c + 1 + n + 3) + (?c + n + 4) \<le> length tape"
    by simp
  then obtain d t1 where tape: "tape = d # t1" by (cases tape) auto
  let ?i = "d mod length ws"
  from Suc.prems(2) have i: "?i < length ws" by simp
  from chars_nth [OF i] have wlen: "length (ws ! ?i) \<le> ?c" .
  from tl tape wlen have "length (ws ! ?i) + 2 \<le> length t1" by simp
  moreover from Suc.prems(1) tape have q1: "degree = 1 \<or> no_compounding t1"
    by (auto simp: no_compounding_def)
  ultimately obtain w t2 u1
    where ie: "introduce_error (ws ! ?i) degree t1 = Inr (w, t2)"
      and u1: "t1 = u1 @ t2" "length u1 \<le> length (ws ! ?i) + 2"
      and w: "length w \<le> length (ws ! ?i) + 1"
    using introduce_error_returns [of degree t1 "ws ! ?i"] by blast
  let ?ws = "ws[?i := w]"
  from chars_update [OF i w] have c': "sum_list (map length ?ws) \<le> ?c + 1" .
  then have need: "n * (sum_list (map length ?ws) + n + 3) \<le> n * (?c + 1 + n + 3)"
    by (intro mult_le_mono2) simp
  from u1 wlen have used1: "length u1 \<le> ?c + 2" by simp
  from tl tape u1 used1 have big: "n * (?c + 1 + n + 3) \<le> length t2" by simp
  from need big have enough: "n * (sum_list (map length ?ws) + n + 3) \<le> length t2"
    by (rule le_trans)
  from q1 u1 have q2: "degree = 1 \<or> no_compounding t2"
    by (auto simp: no_compounding_def)
  from Suc.prems(2) have "?ws \<noteq> []" by simp
  from Suc.IH [OF q2 this enough] obtain ws' t' u2
    where rest: "modify_words n ?ws degree t2 = Inr (ws', t')"
      and u2: "t2 = u2 @ t'" "length u2 \<le> n * (sum_list (map length ?ws) + n + 3)"
    by blast
  from Suc.prems(2) tape ie rest have "modify_words (Suc n) ws degree tape = Inr (ws', t')"
    by (simp add: modify_words_Suc)
  moreover from tape u1 u2 have "tape = (d # u1 @ u2) @ t'" by simp
  moreover have "length (d # u1 @ u2) \<le> Suc n * (?c + Suc n + 3)"
  proof -
    from u2(2) need have "length u2 \<le> n * (?c + 1 + n + 3)" by (rule le_trans)
    with used1 show ?thesis unfolding expand by simp
  qed
  ultimately show ?case by blast
qed

lemma add_errors_returns:
  assumes deg: "degree \<in> {1, 2, 3}" and ne: "str_split text \<noteq> []"
    and quiet: "degree = 1 \<or> no_compounding tape"
    and draws: "draws_for text degree \<le> length tape"
  shows "\<exists>text' t' used. add_errors_to_text text degree tape = Inr (text', t')
           \<and> tape = used @ t' \<and> length used \<le> draws_for text degree"
proof -
  from deg obtain n where n: "num_words_to_modify (length (str_split text)) degree = Inr n"
    by (auto simp: num_words_to_modify_def)
  with draws have "n * (sum_list (map length (str_split text)) + n + 3) \<le> length tape"
    by (simp add: draws_for_def)
  from modify_words_returns [OF quiet ne this] obtain ws' t' used
    where "modify_words n (str_split text) degree tape = Inr (ws', t')"
      and "tape = used @ t'"
      and "length used \<le> n * (sum_list (map length (str_split text)) + n + 3)"
    by blast
  with n have "add_errors_to_text text degree tape = Inr (str_join '' '' ws', t')
      \<and> tape = used @ t' \<and> length used \<le> draws_for text degree"
    by (simp add: add_errors_to_text_def draws_for_def)
  then show ?thesis by blast
qed


section \<open>More draws\<close>


















section \<open>The corruptor: the claims on texts and frames\<close>

text \<open>
  C10. A corrupted text splits into as many words as the original: for the text that
  \<open>add_errors_to_text\<close> returns and for every row of the frame that
  \<open>inject_spelling_errors\<close> returns. It rests on this: the letters a substitution draws
  are not whitespace, an edit of a word of two characters or more gives a word (not
  empty, no whitespace), and so does \<open>introduce_error\<close> with all its passes. A result is
  returned for a text with a word at degree 1, 2 or 3 whenever the tape does not
  compound (or the degree is 1) and has \<open>draws_for\<close> draws.
\<close>

theorem word_count_preserved:
  "(\<forall>text' tape'. add_errors_to_text text degree tape = Inr (text', tape')
      \<longrightarrow> length (str_split text') = length (str_split text)) \<and>
   (\<forall>df' tape'. inject_spelling_errors df degree tape = Inr (df', tape')
      \<longrightarrow> length df' = length df \<and>
          (\<forall>i < length df. length (str_split (text_col (df' ! i)))
                             = length (str_split (text_col (df ! i))))) \<and>
   (degree \<in> {1, 2, 3} \<and> str_split text \<noteq> [] \<and> (degree = 1 \<or> no_compounding tape)
      \<and> draws_for text degree \<le> length tape
      \<longrightarrow> (\<exists>text' tape'. add_errors_to_text text degree tape = Inr (text', tape'))) \<and>
   (\<forall>c \<in> set ''abcdefghijklmnopqrstuvwxyz''. \<not> isspace c) \<and>
   (\<forall>k word' t'. is_word word \<and> 2 \<le> length word
        \<and> apply_edit k word severity t = Inr (word', t')
      \<longrightarrow> is_word word') \<and>
   (\<forall>word' t'. is_word word \<and> introduce_error word severity t = Inr (word', t')
      \<longrightarrow> is_word word')"
proof (intro conjI allI impI ballI)
  fix text' tape'
  assume "add_errors_to_text text degree tape = Inr (text', tape')"
  from add_errors_Inr [OF this]
  show "length (str_split text') = length (str_split text)" by simp
next
  fix df' tape'
  assume "inject_spelling_errors df degree tape = Inr (df', tape')"
  from inject_Inr [OF this]
  have rows: "list_all2 (\<lambda>row row'. row' = row\<lparr>text_col := text_col row'\<rparr> \<and>
        (\<exists>t1 t2. add_errors_to_text (text_col row) degree t1 = Inr (text_col row', t2)))
       df df'" .
  then show "length df' = length df" by (simp add: list_all2_lengthD)
  fix i assume "i < length df"
  with rows obtain t1 t2
    where "add_errors_to_text (text_col (df ! i)) degree t1 = Inr (text_col (df' ! i), t2)"
    by (auto dest: list_all2_nthD)
  from add_errors_Inr [OF this]
  show "length (str_split (text_col (df' ! i))) = length (str_split (text_col (df ! i)))"
    by simp
next
  assume "degree \<in> {1, 2, 3} \<and> str_split text \<noteq> [] \<and> (degree = 1 \<or> no_compounding tape)
      \<and> draws_for text degree \<le> length tape"
  then show "\<exists>text' tape'. add_errors_to_text text degree tape = Inr (text', tape')"
    using add_errors_returns [of degree "text" tape] by blast
next
  fix c assume "c \<in> set ''abcdefghijklmnopqrstuvwxyz''"
  then show "\<not> isspace c" by (rule lowercase_not_space)
next
  fix k word' t'
  assume "is_word word \<and> 2 \<le> length word \<and> apply_edit k word severity t = Inr (word', t')"
  then show "is_word word'"
    using apply_edit_word [of word k severity t word' t'] by blast
next
  fix word' t'
  assume "is_word word \<and> introduce_error word severity t = Inr (word', t')"
  then show "is_word word'"
    using introduce_error_word [of word severity t word' t'] by blast
qed

theorem word_count_preserved_witness:
  "add_errors_to_text ''hello world'' 2 [1, 3, 0, 2 ^ 52] = Inr (''hello wworld'', []) \<and>
   length (str_split ''hello wworld'') = length (str_split ''hello world'') \<and>
   2 \<in> {1, 2, 3 :: int} \<and> str_split ''hello world'' \<noteq> [] \<and>
   no_compounding (replicate 14 (2 ^ 52)) \<and>
   draws_for ''hello world'' 2 \<le> length (replicate 14 (2 ^ 52 :: nat)) \<and>
   (\<exists>text' tape'.
      add_errors_to_text ''hello world'' 2 (replicate 14 (2 ^ 52)) = Inr (text', tape'))"
proof -
  have words: "str_split ''hello world'' = [''hello'', ''world'']"
    by (simp add: str_split.simps isspace_def)
  have n: "num_words_to_modify (length (str_split ''hello world'')) 2 = Inr (Suc 0)"
    by (simp add: words num_words_to_modify_def)
  have "introduce_error ''world'' 2 [3, 0, 2 ^ 52] = Inr (''wworld'', [])"
    by (simp add: introduce_error_Cons error_types_def apply_edit_Duplication
                  compound_def random_unit_def)
  with n have run: "add_errors_to_text ''hello world'' 2 [1, 3, 0, 2 ^ 52]
      = Inr (''hello wworld'', [])"
    by (simp add: add_errors_to_text_def words modify_words_Suc)
  have calm: "no_compounding (replicate 14 (2 ^ 52))"
    by (simp add: no_compounding_def)
  have need: "draws_for ''hello world'' 2 \<le> length (replicate 14 (2 ^ 52 :: nat))"
    unfolding draws_for_def n by (simp add: words)
  have deg: "2 \<in> {1, 2, 3 :: int}" and ne: "str_split ''hello world'' \<noteq> []"
    by (simp_all add: words)
  note w1 = word_count_preserved [of "''hello world''" 2 "[1, 3, 0, 2 ^ 52]" "[]" "[]" 1 "[]"]
  note w2 = word_count_preserved [of "''hello world''" 2 "replicate 14 (2 ^ 52)" "[]" "[]" 1 "[]"]
  from w1 run have "length (str_split ''hello wworld'') = length (str_split ''hello world'')"
    by blast
  moreover from w2 deg ne calm need
  have "\<exists>text' tape'.
      add_errors_to_text ''hello world'' 2 (replicate 14 (2 ^ 52)) = Inr (text', tape')"
    by blast
  ultimately show ?thesis using run deg ne calm need by blast
qed

text \<open>
  With draws that always compound the passes never end: at severity 3, on a tape of
  zeros of any length, a word of two characters or more is still being edited when the
  tape is used up.
\<close>

lemma always_compounding:
  "2 \<le> length word \<Longrightarrow> introduce_error word 3 (replicate n 0) = Inl OutOfDraws"
proof (induction n arbitrary: word rule: less_induct)
  case (less n)
  from less.prems have ne: "word \<noteq> []" by auto
  consider "n = 0" | "n = 1" | "n = 2" | "n = 3" | m where "n = Suc (Suc (Suc (Suc m)))"
    by (metis One_nat_def Suc_1 not0_implies_Suc numeral_3_eq_3)
  then show ?case
  proof cases
    case 1
    with less.prems show ?thesis by (simp add: introduce_error_Nil)
  next
    case 2
    with less.prems ne show ?thesis
      by (simp add: introduce_error_Cons error_types_def apply_edit_Substitution)
  next
    case 3
    with less.prems ne show ?thesis
      by (simp add: numeral_2_eq_2 introduce_error_Cons error_types_def
                    apply_edit_Substitution)
  next
    case 4
    with less.prems ne show ?thesis
      by (simp add: numeral_3_eq_3 introduce_error_Cons error_types_def
                    apply_edit_Substitution compound_def random_unit_def)
  next
    case 5
    let ?w = "take 0 word @ [''abcdefghijklmnopqrstuvwxyz'' ! 0] @ drop 1 word"
    from less.prems have "2 \<le> length ?w" by simp
    moreover from 5 have "m < n" by simp
    ultimately have "introduce_error ?w 3 (replicate m 0) = Inl OutOfDraws"
      by (rule less.IH [rotated])
    with 5 less.prems ne show ?thesis
      by (simp add: introduce_error_Cons error_types_def apply_edit_Substitution
                    compound_def random_unit_def)
  qed
qed




section \<open>The normalizers: texts and labels\<close>

lemma rating_sentiment_Some:
  "rating_sentiment ov = Some s \<Longrightarrow> s \<in> {''negative'', ''neutral'', ''positive''}"
  by (auto simp: rating_sentiment_def split: if_splits)

text \<open>The movie-review loop keeps every row: record \<open>i\<close> is made from row \<open>i\<close>.\<close>

lemma movie_rows_Inr:
  "movie_rows k df = Inr data \<Longrightarrow>
     length data = length df \<and>
     (\<forall>i < length df. \<exists>review. fst (df ! i) = Str review \<and>
        data ! i = \<lparr>id_col = k + i,
                     text_col = str_strip (str_replace ''<br />'' '' '' review),
                     sentiment_col = snd (df ! i)\<rparr>)"
proof (induction df arbitrary: k data)
  case Nil
  then show ?case by simp
next
  case (Cons row rows)
  obtain review sentiment where row: "row = (review, sentiment)" by (cases row)
  from Cons.prems row obtain r rest
    where r: "review = Str r" and rest: "movie_rows (Suc k) rows = Inr rest"
      and data: "data = \<lparr>id_col = k, text_col = str_strip (str_replace ''<br />'' '' '' r),
                          sentiment_col = sentiment\<rparr> # rest"
    by (auto split: cell.splits sum.splits)
  from Cons.IH [OF rest] have len: "length rest = length rows"
    and nth: "\<forall>i < length rows. \<exists>review. fst (rows ! i) = Str review \<and>
        rest ! i = \<lparr>id_col = Suc k + i,
                     text_col = str_strip (str_replace ''<br />'' '' '' review),
                     sentiment_col = snd (rows ! i)\<rparr>"
    by simp_all
  have "\<exists>review. fst ((row # rows) ! i) = Str review \<and>
        data ! i = \<lparr>id_col = k + i,
                     text_col = str_strip (str_replace ''<br />'' '' '' review),
                     sentiment_col = snd ((row # rows) ! i)\<rparr>"
    if "i < length (row # rows)" for i
  proof (cases i)
    case 0
    with row r data show ?thesis by simp
  next
    case (Suc j)
    with that nth data show ?thesis by simp
  qed
  with len data show ?case by simp
qed

lemma movie_rows_returns:
  "\<forall>row \<in> set df. \<exists>r. fst row = Str r \<Longrightarrow> \<exists>data. movie_rows k df = Inr data"
proof (induction df arbitrary: k)
  case Nil
  then show ?case by simp
next
  case (Cons row rows)
  obtain review sentiment where row: "row = (review, sentiment)" by (cases row)
  from Cons.prems row obtain r where "review = Str r" by auto
  moreover from Cons.prems obtain rest where "movie_rows (Suc k) rows = Inr rest"
    using Cons.IH [of "Suc k"] by auto
  ultimately show ?case using row by simp
qed

text \<open>
  The financial-news loop emits a record only for a row whose trimmed, lower-cased
  sentiment and trimmed text are both non-empty.
\<close>

lemma financial_rows_Inr:
  "financial_rows k fin = Inr data \<Longrightarrow>
     \<forall>r \<in> set data. text_col r \<noteq> [] \<and> sentiment_col r \<noteq> [] \<and>
       (\<exists>s t. (Str s, Str t) \<in> set fin \<and> sentiment_col r = str_lower (str_strip s)
                \<and> text_col r = str_strip t)"
proof (induction fin arbitrary: k data)
  case Nil
  then show ?case by simp
next
  case (Cons row rows)
  obtain c1 c2 where row: "row = (c1, c2)" by (cases row)
  from Cons.prems row obtain s t where cells: "c1 = Str s" "c2 = Str t"
    by (auto split: cell.splits)
  show ?case
  proof (cases "str_lower (str_strip s) = [] \<or> str_strip t = []")
    case True
    with Cons.prems row cells have "financial_rows (Suc k) rows = Inr data"
      by (simp add: Let_def)
    from Cons.IH [OF this] show ?thesis by fastforce
  next
    case False
    with Cons.prems row cells obtain rest
      where rest: "financial_rows (Suc k) rows = Inr rest"
        and data: "data = \<lparr>id_col = k, text_col = str_strip t,
                            sentiment_col = str_lower (str_strip s)\<rparr> # rest"
      by (auto simp: Let_def split: sum.splits)
    have "(Str s, Str t) \<in> set (row # rows)" by (simp add: row cells)
    with False have head: "str_strip t \<noteq> [] \<and> str_lower (str_strip s) \<noteq> [] \<and>
       (\<exists>s' t'. (Str s', Str t') \<in> set (row # rows)
          \<and> str_lower (str_strip s) = str_lower (str_strip s') \<and> str_strip t = str_strip t')"
      by blast
    from Cons.IH [OF rest] have "\<forall>r \<in> set rest. text_col r \<noteq> [] \<and> sentiment_col r \<noteq> [] \<and>
       (\<exists>s t. (Str s, Str t) \<in> set (row # rows) \<and> sentiment_col r = str_lower (str_strip s)
                \<and> text_col r = str_strip t)"
      by fastforce
    with head show ?thesis unfolding data by simp
  qed
qed

text \<open>
  The product-review loop tests the review text before it strips it: a review text of
  whitespace only passes the test and gives a record with an empty text.
\<close>

lemma fashion_whitespace_review_text:
  "format_fashion_reviews_for_evaluate [Object (PyStr ''  '') (PyNum 5)]
     = Inr [\<lparr>id_col = 0, text_col = '''', sentiment_col = ''positive''\<rparr>]"
  by (simp add: format_fashion_reviews_for_evaluate_def rating_sentiment_def
                str_strip_def isspace_def)

text \<open>
  C2. Product reviews: the label of every record is \<open>negative\<close>, \<open>neutral\<close> or
  \<open>positive\<close>, and its text is the review text of its line, a non-empty string,
  trimmed. Financial news: every record has a non-empty text and a non-empty label,
  which are the trimmed text and the trimmed, lower-cased sentiment of an input row; the
  label is checked against no vocabulary. Movie reviews: every row gives a record, whose
  label is the row's sentiment as it stands and whose text is the review with each
  line-break marker replaced by a space, trimmed; the text may be empty.
\<close>

theorem normalizer_records:
  "(\<forall>data. format_fashion_reviews_for_evaluate js = Inr data
      \<longrightarrow> (\<forall>r \<in> set data. sentiment_col r \<in> {''negative'', ''neutral'', ''positive''} \<and>
            (\<exists>s ov. js ! id_col r = Object (PyStr s) ov \<and> s \<noteq> []
                      \<and> text_col r = str_strip s))) \<and>
   (\<forall>data. format_financial_news_for_evaluate fin = Inr data
      \<longrightarrow> (\<forall>r \<in> set data. text_col r \<noteq> [] \<and> sentiment_col r \<noteq> [] \<and>
            (\<exists>s t. (Str s, Str t) \<in> set fin \<and> sentiment_col r = str_lower (str_strip s)
                     \<and> text_col r = str_strip t))) \<and>
   (\<forall>data. format_movie_reviews_for_evaluate df = Inr data
      \<longrightarrow> length data = length df \<and>
          (\<forall>i < length df. \<exists>review. fst (df ! i) = Str review \<and>
             data ! i = \<lparr>id_col = i,
                          text_col = str_strip (str_replace ''<br />'' '' '' review),
                          sentiment_col = snd (df ! i)\<rparr>))"
proof (intro conjI allI impI)
  fix data
  assume "format_fashion_reviews_for_evaluate js = Inr data"
  then have "fashion_lines 0 js = Inr data"
    by (simp add: format_fashion_reviews_for_evaluate_def)
  from fashion_lines_ids [OF this]
  have "\<forall>r \<in> set data. \<exists>s ov. js ! id_col r = Object (PyStr s) ov \<and> s \<noteq> [] \<and>
           text_col r = str_strip s \<and> rating_sentiment ov = Some (sentiment_col r)"
    by simp
  then show "\<forall>r \<in> set data. sentiment_col r \<in> {''negative'', ''neutral'', ''positive''} \<and>
            (\<exists>s ov. js ! id_col r = Object (PyStr s) ov \<and> s \<noteq> []
                      \<and> text_col r = str_strip s)"
    using rating_sentiment_Some by blast
next
  fix data
  assume "format_financial_news_for_evaluate fin = Inr data"
  then have "financial_rows 0 fin = Inr data"
    by (simp add: format_financial_news_for_evaluate_def)
  then show "\<forall>r \<in> set data. text_col r \<noteq> [] \<and> sentiment_col r \<noteq> [] \<and>
            (\<exists>s t. (Str s, Str t) \<in> set fin \<and> sentiment_col r = str_lower (str_strip s)
                     \<and> text_col r = str_strip t)"
    by (rule financial_rows_Inr)
next
  fix data
  assume "format_movie_reviews_for_evaluate df = Inr data"
  then have "movie_rows 0 df = Inr data"
    by (simp add: format_movie_reviews_for_evaluate_def)
  from movie_rows_Inr [OF this]
  have len: "length data = length df"
    and nth: "\<forall>i < length df. \<exists>review. fst (df ! i) = Str review \<and>
             data ! i = \<lparr>id_col = i,
                          text_col = str_strip (str_replace ''<br />'' '' '' review),
                          sentiment_col = snd (df ! i)\<rparr>"
    by simp_all
  from len show "length data = length df" .
  fix i assume "i < length df"
  with nth show "\<exists>review. fst (df ! i) = Str review \<and>
             data ! i = \<lparr>id_col = i,
                          text_col = str_strip (str_replace ''<br />'' '' '' review),
                          sentiment_col = snd (df ! i)\<rparr>"
    by blast
qed

text \<open>
  A movie review that is only a line-break marker gives an empty text, and its sentiment
  is passed on whatever it is; a financial row's label is only trimmed and lower-cased.
\<close>

theorem normalizer_records_counterexample:
  "format_movie_reviews_for_evaluate [(Str ''<br />'', ''mixed'')]
     = Inr [\<lparr>id_col = 0, text_col = '''', sentiment_col = ''mixed''\<rparr>] \<and>
   ''mixed'' \<notin> {''positive'', ''negative'', ''neutral''} \<and>
   format_financial_news_for_evaluate [(Str ''Bullish '', Str ''Shares rose'')]
     = Inr [\<lparr>id_col = 0, text_col = ''Shares rose'', sentiment_col = ''bullish''\<rparr>] \<and>
   ''bullish'' \<notin> {''positive'', ''negative'', ''neutral''}"
  by (simp add: format_movie_reviews_for_evaluate_def format_financial_news_for_evaluate_def
                str_strip_def str_lower_def char_lower_def isspace_def char_of_eq_iff)

theorem normalizer_records_witness:
  "format_fashion_reviews_for_evaluate
     [Object (PyStr ''Runs small'') (PyNum 2), Object (PyStr ''Love it'') (PyNum 5)]
     = Inr [\<lparr>id_col = 0, text_col = ''Runs small'', sentiment_col = ''negative''\<rparr>,
            \<lparr>id_col = 1, text_col = ''Love it'', sentiment_col = ''positive''\<rparr>] \<and>
   format_financial_news_for_evaluate [(Str ''Neutral'', Str '' Flat day ''), (Str '' '', Str ''x'')]
     = Inr [\<lparr>id_col = 0, text_col = ''Flat day'', sentiment_col = ''neutral''\<rparr>] \<and>
   format_movie_reviews_for_evaluate [(Str ''Bad.'', ''negative'')]
     = Inr [\<lparr>id_col = 0, text_col = ''Bad.'', sentiment_col = ''negative''\<rparr>] \<and>
   sentiment_col \<lparr>id_col = 0, text_col = ''Runs small'', sentiment_col = ''negative''\<rparr>
     \<in> {''negative'', ''neutral'', ''positive''} \<and>
   sentiment_col \<lparr>id_col = 1, text_col = ''Love it'', sentiment_col = ''positive''\<rparr>
     \<in> {''negative'', ''neutral'', ''positive''} \<and>
   text_col \<lparr>id_col = 0, text_col = ''Flat day'', sentiment_col = ''neutral''\<rparr> \<noteq> [] \<and>
   sentiment_col \<lparr>id_col = 0, text_col = ''Flat day'', sentiment_col = ''neutral''\<rparr> \<noteq> [] \<and>
   length [\<lparr>id_col = 0, text_col = ''Bad.'', sentiment_col = ''negative''\<rparr>]
     = length [(Str ''Bad.'', ''negative'')]"
proof -
  let ?js = "[Object (PyStr ''Runs small'') (PyNum 2), Object (PyStr ''Love it'') (PyNum 5)]"
  let ?fin = "[(Str ''Neutral'', Str '' Flat day ''), (Str '' '', Str ''x'')]"
  let ?df = "[(Str ''Bad.'', ''negative'')]"
  let ?r0 = "\<lparr>id_col = 0, text_col = ''Runs small'', sentiment_col = ''negative''\<rparr>"
  let ?r1 = "\<lparr>id_col = 1, text_col = ''Love it'', sentiment_col = ''positive''\<rparr>"
  let ?f0 = "\<lparr>id_col = 0, text_col = ''Flat day'', sentiment_col = ''neutral''\<rparr>"
  have a: "format_fashion_reviews_for_evaluate ?js = Inr [?r0, ?r1]"
    by (simp add: format_fashion_reviews_for_evaluate_def rating_sentiment_def
                  str_strip_def isspace_def)
  have b: "format_financial_news_for_evaluate ?fin = Inr [?f0]"
    by (simp add: format_financial_news_for_evaluate_def str_strip_def str_lower_def
                  char_lower_def isspace_def char_of_eq_iff)
  have c: "format_movie_reviews_for_evaluate ?df
     = Inr [\<lparr>id_col = 0, text_col = ''Bad.'', sentiment_col = ''negative''\<rparr>]"
    by (simp add: format_movie_reviews_for_evaluate_def str_strip_def isspace_def)
  note w = normalizer_records [of ?js ?fin ?df]
  from w a have "\<forall>r \<in> set [?r0, ?r1].
      sentiment_col r \<in> {''negative'', ''neutral'', ''positive''}"
    by blast
  then have "sentiment_col ?r0 \<in> {''negative'', ''neutral'', ''positive''}"
    and "sentiment_col ?r1 \<in> {''negative'', ''neutral'', ''positive''}"
    by simp_all
  moreover from w b
  have "\<forall>r \<in> set [?f0]. text_col r \<noteq> [] \<and> sentiment_col r \<noteq> []"
    by blast
  then have "text_col ?f0 \<noteq> []" and "sentiment_col ?f0 \<noteq> []"
    by simp_all
  moreover from w c
  have "length [\<lparr>id_col = 0, text_col = ''Bad.'', sentiment_col = ''negative''\<rparr>] = length ?df"
    by blast
  ultimately show ?thesis using a b c by blast
qed

end
